theory Spec2Isabelle
  imports Main "HOL-Library.Word" "HOL-Library.Signed_Division"
begin

unbundle bit_operations_syntax

section \<open>Machine types and ELF constants\<close>

text \<open>
  The linker works on fixed-width integers.  \<open>u8\<close> .. \<open>u64\<close> are the unsigned
  types of the source, \<open>i64\<close> its signed 64-bit type: the same 64-bit words,
  read with \<open>sint\<close> wherever the source compares or divides them as signed.
\<close>

type_synonym u8 = "8 word"
type_synonym u16 = "16 word"
type_synonym u32 = "32 word"
type_synonym u64 = "64 word"
type_synonym i64 = "64 word"

text \<open>
  The numeric values below are those of the ELF gABI and the x86-64 psABI
  (\<open>elf.h\<close>); the header that declares them is not part of the sources read here.
\<close>

definition SHT_NOTE :: u32 where "SHT_NOTE = 7"
definition SHT_NOBITS :: u32 where "SHT_NOBITS = 8"

definition SHF_WRITE :: u64 where "SHF_WRITE = 1"
definition SHF_ALLOC :: u64 where "SHF_ALLOC = 2"
definition SHF_EXECINSTR :: u64 where "SHF_EXECINSTR = 4"
definition SHF_TLS :: u64 where "SHF_TLS = 1024"

record ElfShdr =
  sh_type :: u32
  sh_flags :: u64
  sh_addr :: u64
  sh_offset :: u64
  sh_size :: u64
  sh_addralign :: u64

section \<open>Output section ranking (\<open>get_section_rank\<close>, main.cc)\<close>

text \<open>
  \<open>bool x = flags & F\<close> is true when the masked value is non-zero; a \<open>bool\<close>
  shifted left is promoted to an integer 0 or 1 first.
\<close>

definition get_section_rank :: "ElfShdr \<Rightarrow> i64" where
  "get_section_rank shdr =
     (let note = (sh_type shdr = SHT_NOTE);
          alloc = (sh_flags shdr AND SHF_ALLOC \<noteq> 0);
          writable = (sh_flags shdr AND SHF_WRITE \<noteq> 0);
          exec = (sh_flags shdr AND SHF_EXECINSTR \<noteq> 0);
          tls = (sh_flags shdr AND SHF_TLS \<noteq> 0);
          nobits = (sh_type shdr = SHT_NOBITS)
      in push_bit 6 (of_bool (\<not> note)) OR push_bit 5 (of_bool (\<not> alloc)) OR
         push_bit 4 (of_bool writable) OR push_bit 3 (of_bool exec) OR
         push_bit 2 (of_bool (\<not> tls)) OR of_bool nobits)"

text \<open>
  The bit tuple the specification names, high to low:
  \<open>(!note, !alloc, writable, exec, !tls, nobits)\<close>.
\<close>

definition rank_bits :: "ElfShdr \<Rightarrow> bool list" where
  "rank_bits shdr =
     [sh_type shdr \<noteq> SHT_NOTE,
      sh_flags shdr AND SHF_ALLOC = 0,
      sh_flags shdr AND SHF_WRITE \<noteq> 0,
      sh_flags shdr AND SHF_EXECINSTR \<noteq> 0,
      sh_flags shdr AND SHF_TLS = 0,
      sh_type shdr = SHT_NOBITS]"

text \<open>
  The eight kinds of section the specification lists, in its order.  ``Data''
  and the TLS/BSS kinds are non-executable, as read-only data is set against
  read-only code; an allocated section that is both writable and executable is
  none of the eight.
\<close>

datatype section_kind =
  NOTE | ALLOC_RO_DATA | ALLOC_RO_CODE | ALLOC_RW_TDATA | ALLOC_RW_TBSS |
  ALLOC_RW_DATA | ALLOC_RW_BSS | NONALLOC

fun kind_pos :: "section_kind \<Rightarrow> nat" where
  "kind_pos NOTE = 0"
| "kind_pos ALLOC_RO_DATA = 1"
| "kind_pos ALLOC_RO_CODE = 2"
| "kind_pos ALLOC_RW_TDATA = 3"
| "kind_pos ALLOC_RW_TBSS = 4"
| "kind_pos ALLOC_RW_DATA = 5"
| "kind_pos ALLOC_RW_BSS = 6"
| "kind_pos NONALLOC = 7"

definition kind_of :: "ElfShdr \<Rightarrow> section_kind option" where
  "kind_of shdr =
     (let alloc = (sh_flags shdr AND SHF_ALLOC \<noteq> 0);
          writable = (sh_flags shdr AND SHF_WRITE \<noteq> 0);
          exec = (sh_flags shdr AND SHF_EXECINSTR \<noteq> 0);
          tls = (sh_flags shdr AND SHF_TLS \<noteq> 0);
          nobits = (sh_type shdr = SHT_NOBITS)
      in if sh_type shdr = SHT_NOTE then Some NOTE
         else if \<not> alloc then Some NONALLOC
         else if \<not> writable then Some (if exec then ALLOC_RO_CODE else ALLOC_RO_DATA)
         else if exec then None
         else if tls then Some (if nobits then ALLOC_RW_TBSS else ALLOC_RW_TDATA)
         else Some (if nobits then ALLOC_RW_BSS else ALLOC_RW_DATA))"

section \<open>Relocations, symbols and input sections\<close>

definition R_X86_64_NONE :: u32 where "R_X86_64_NONE = 0"
definition R_X86_64_64 :: u32 where "R_X86_64_64 = 1"
definition R_X86_64_PC32 :: u32 where "R_X86_64_PC32 = 2"
definition R_X86_64_GOT32 :: u32 where "R_X86_64_GOT32 = 3"
definition R_X86_64_PLT32 :: u32 where "R_X86_64_PLT32 = 4"
definition R_X86_64_GOTPCREL :: u32 where "R_X86_64_GOTPCREL = 9"
definition R_X86_64_32 :: u32 where "R_X86_64_32 = 10"
definition R_X86_64_32S :: u32 where "R_X86_64_32S = 11"
definition R_X86_64_16 :: u32 where "R_X86_64_16 = 12"
definition R_X86_64_PC16 :: u32 where "R_X86_64_PC16 = 13"
definition R_X86_64_8 :: u32 where "R_X86_64_8 = 14"
definition R_X86_64_PC8 :: u32 where "R_X86_64_PC8 = 15"
definition R_X86_64_DTPOFF64 :: u32 where "R_X86_64_DTPOFF64 = 17"
definition R_X86_64_TPOFF64 :: u32 where "R_X86_64_TPOFF64 = 18"
definition R_X86_64_TLSGD :: u32 where "R_X86_64_TLSGD = 19"
definition R_X86_64_TLSLD :: u32 where "R_X86_64_TLSLD = 20"
definition R_X86_64_DTPOFF32 :: u32 where "R_X86_64_DTPOFF32 = 21"
definition R_X86_64_GOTTPOFF :: u32 where "R_X86_64_GOTTPOFF = 22"
definition R_X86_64_TPOFF32 :: u32 where "R_X86_64_TPOFF32 = 23"
definition R_X86_64_PC64 :: u32 where "R_X86_64_PC64 = 24"
definition R_X86_64_GOTPC32 :: u32 where "R_X86_64_GOTPC32 = 26"
definition R_X86_64_GOTPCRELX :: u32 where "R_X86_64_GOTPCRELX = 41"
definition R_X86_64_REX_GOTPCRELX :: u32 where "R_X86_64_REX_GOTPCRELX = 42"

lemmas R_defs =
  R_X86_64_NONE_def R_X86_64_64_def R_X86_64_PC32_def R_X86_64_GOT32_def
  R_X86_64_PLT32_def R_X86_64_GOTPCREL_def R_X86_64_32_def R_X86_64_32S_def
  R_X86_64_16_def R_X86_64_PC16_def R_X86_64_8_def R_X86_64_PC8_def
  R_X86_64_DTPOFF64_def R_X86_64_TPOFF64_def R_X86_64_TLSGD_def R_X86_64_TLSLD_def
  R_X86_64_DTPOFF32_def R_X86_64_GOTTPOFF_def R_X86_64_TPOFF32_def R_X86_64_PC64_def
  R_X86_64_GOTPC32_def R_X86_64_GOTPCRELX_def R_X86_64_REX_GOTPCRELX_def

definition STT_OBJECT :: u8 where "STT_OBJECT = 1"
definition STT_GNU_IFUNC :: u8 where "STT_GNU_IFUNC = 10"

record ElfRela =
  r_offset :: u64
  r_sym :: u32
  r_type :: u32
  r_addend :: i64

text \<open>
  A \<open>Symbol\<close>, with the fields the two relocation passes read or write.
  \<open>sym_file\<close> is the pointer \<open>Symbol::file\<close> (\<open>None\<close> is the null pointer).
  The address getters \<open>get_addr()\<close>, \<open>get_plt_addr()\<close>, \<open>get_got_addr()\<close>,
  \<open>get_tlsgd_addr()\<close>, \<open>get_tlsld_addr()\<close> and \<open>get_gottpoff_addr()\<close> are declared
  in a header outside the sources; their results are carried as fields.
\<close>

record Symbol =
  sym_file :: "nat option"
  is_placeholder :: bool
  is_imported :: bool
  type :: u8
  needs_got :: bool
  needs_plt :: bool
  needs_copyrel :: bool
  needs_gottpoff :: bool
  needs_tlsgd :: bool
  needs_tlsld :: bool
  plt_idx :: u32
  tlsgd_idx :: u32
  tlsld_idx :: u32
  get_addr :: u64
  get_plt_addr :: u64
  get_got_addr :: u64
  get_tlsgd_addr :: u64
  get_tlsld_addr :: u64
  get_gottpoff_addr :: u64

text \<open>
  \<open>StringPieceRef\<close>: \<open>piece\<close> is the pointer to a merged string piece, carried
  as the piece's \<open>get_addr()\<close> when it is not null; \<open>addend\<close> is the addend into
  the piece, already widened to the 64 bits of the expression it is used in.
\<close>

record StringPieceRef =
  piece :: "u64 option"
  addend :: i64

text \<open>
  \<open>InputChunk\<close> and \<open>InputSection\<close>.  \<open>file_str\<close> stands for
  \<open>to_string(chunk->file)\<close>, \<open>symbols\<close> for \<open>file->symbols\<close> (an array of
  pointers into the symbol heap) and \<open>contents\<close> for \<open>file->get_string(shdr)\<close>.
  The parser, which is outside the sources, builds \<open>rel_pieces\<close> with one
  entry per relocation and keeps every \<open>r_sym\<close> within \<open>symbols\<close>; the
  two passes index both arrays without a check.
\<close>

record InputChunk =
  shdr :: ElfShdr
  name :: string
  file_str :: string
  offset :: u64

record InputSection = InputChunk +
  symbols :: "nat list"
  rels :: "ElfRela list"
  rel_pieces :: "StringPieceRef list"
  contents :: "u8 list"

definition to_string :: "'a InputChunk_scheme \<Rightarrow> string" where
  "to_string chunk = file_str chunk @ '':('' @ name chunk @ '')''"

text \<open>
  Modelled from the spec: \<open>error(msg)\<close> is declared in \<open>mold.h\<close>, which is
  not among the sources.  The specification makes an unterminated mergeable
  string fatal and an unknown relocation type fatal with the type number, and
  both callers below rely on the call not returning (the \<open>default:\<close> arm has
  no \<open>break\<close>, the string splitter uses \<open>end\<close> right after it).  A call
  is therefore a fatal outcome carrying the message's parts: the section
  string and, for a relocation, the type number.
\<close>

datatype error =
  UnknownRelocation string u32
| NotNullTerminated string

section \<open>The output buffer\<close>

text \<open>
  \<open>out::buf\<close> is a byte array; an address is an offset from its start, and
  pointer arithmetic is 64-bit.  Multi-byte stores are little-endian (x86-64).
\<close>

type_synonym mem = "u64 \<Rightarrow> u8"

fun memcpy :: "mem \<Rightarrow> u64 \<Rightarrow> u8 list \<Rightarrow> mem" where
  "memcpy m dst [] = m"
| "memcpy m dst (b # bs) = memcpy (m(dst := b)) (dst + 1) bs"

definition store_u8 :: "mem \<Rightarrow> u64 \<Rightarrow> u8 \<Rightarrow> mem" where
  "store_u8 m a v = m(a := v)"

definition store_u16 :: "mem \<Rightarrow> u64 \<Rightarrow> u16 \<Rightarrow> mem" where
  "store_u16 m a v = memcpy m a [ucast v, ucast (drop_bit 8 v)]"

definition store_u32 :: "mem \<Rightarrow> u64 \<Rightarrow> u32 \<Rightarrow> mem" where
  "store_u32 m a v =
     memcpy m a [ucast v, ucast (drop_bit 8 v), ucast (drop_bit 16 v), ucast (drop_bit 24 v)]"

definition store_u64 :: "mem \<Rightarrow> u64 \<Rightarrow> u64 \<Rightarrow> mem" where
  "store_u64 m a v =
     memcpy m a [ucast v, ucast (drop_bit 8 v), ucast (drop_bit 16 v), ucast (drop_bit 24 v),
                 ucast (drop_bit 32 v), ucast (drop_bit 40 v), ucast (drop_bit 48 v),
                 ucast (drop_bit 56 v)]"

text \<open>Reading back, for stating what a location holds.\<close>

definition load_bytes :: "mem \<Rightarrow> u64 \<Rightarrow> nat \<Rightarrow> u8 list" where
  "load_bytes m a n = map (\<lambda>k. m (a + of_nat k)) [0..<n]"

section \<open>Applying relocations (\<open>InputSection::copy_buf\<close>, input_sections.cc)\<close>

text \<open>The process-wide \<open>out::\<close> values \<open>copy_buf\<close> reads, and the header of the
  output section the input section belongs to.\<close>

record OutCtx =
  output_section_shdr :: ElfShdr
  got_sh_addr :: u64
  tls_end :: u64

definition insn_gd :: "u8 list" where
  "insn_gd = [0x64, 0x48, 0x8b, 0x04, 0x25, 0, 0, 0, 0,
              0x48, 0x8d, 0x80, 0, 0, 0, 0]"

definition insn_ld :: "u8 list" where
  "insn_ld = [0x66, 0x66, 0x66, 0x64, 0x48, 0x8b, 0x04, 0x25, 0, 0, 0, 0]"

text \<open>
  The body of the relocation loop at index \<open>i\<close>.  The result is the error of
  \<open>error(...)\<close>, or the buffer after the iteration together with the value of
  \<open>i\<close> when the iteration ends (\<open>i + 1\<close> where the body did \<open>i++\<close>); the loop
  header then adds one more.
\<close>

definition apply_reloc ::
  "OutCtx \<Rightarrow> (nat \<Rightarrow> Symbol) \<Rightarrow> InputSection \<Rightarrow> nat \<Rightarrow> mem \<Rightarrow> error + (mem \<times> nat)" where
  "apply_reloc out heap isec i buf =
     (let base = sh_offset (output_section_shdr out) + offset isec;
          sh_addr' = sh_addr (output_section_shdr out) + offset isec;
          rel = rels isec ! i;
          ref = rel_pieces isec ! i;
          sym = heap (symbols isec ! unat (r_sym rel));
          loc = base + r_offset rel
      in if sym_file sym = None then Inr (buf, i)
         else
           let S = (case piece ref of Some a \<Rightarrow> a | None \<Rightarrow> get_addr sym);
               A = (case piece ref of Some a \<Rightarrow> addend ref | None \<Rightarrow> r_addend rel);
               P = sh_addr' + r_offset rel;
               L = get_plt_addr sym;
               G = get_got_addr sym - got_sh_addr out;
               GOT = got_sh_addr out;
               t = r_type rel
           in if t = R_X86_64_NONE then Inr (buf, i)
              else if t = R_X86_64_64 then Inr (store_u64 buf loc (S + A), i)
              else if t = R_X86_64_PC32 then Inr (store_u32 buf loc (ucast (S + A - P)), i)
              else if t = R_X86_64_GOT32 then Inr (store_u64 buf loc (G + A), i)
              else if t = R_X86_64_PLT32 then
                (if plt_idx sym = - 1 then Inr (store_u32 buf loc (ucast (S + A - P)), i)
                 else Inr (store_u32 buf loc (ucast (L + A - P)), i))
              else if t = R_X86_64_GOTPCREL \<or> t = R_X86_64_GOTPCRELX
                      \<or> t = R_X86_64_REX_GOTPCRELX then
                Inr (store_u32 buf loc (ucast (G + GOT + A - P)), i)
              else if t = R_X86_64_32 \<or> t = R_X86_64_32S then
                Inr (store_u32 buf loc (ucast (S + A)), i)
              else if t = R_X86_64_16 then Inr (store_u16 buf loc (ucast (S + A)), i)
              else if t = R_X86_64_PC16 then Inr (store_u16 buf loc (ucast (S + A - P)), i)
              else if t = R_X86_64_8 then Inr (store_u8 buf loc (ucast (S + A)), i)
              else if t = R_X86_64_PC8 then Inr (store_u8 buf loc (ucast (S + A - P)), i)
              else if t = R_X86_64_TLSGD then
                (if tlsgd_idx sym = - 1 then
                   Inr (store_u32 (memcpy buf (loc - 4) insn_gd) (loc + 8)
                          (ucast (S - tls_end out + A + 4)), i + 1)
                 else Inr (store_u32 buf loc (ucast (get_tlsgd_addr sym + A - P)), i))
              else if t = R_X86_64_TLSLD then
                (if tlsld_idx sym = - 1 then Inr (memcpy buf (loc - 3) insn_ld, i + 1)
                 else Inr (store_u32 buf loc (ucast (get_tlsld_addr sym + A - P)), i))
              else if t = R_X86_64_DTPOFF32 \<or> t = R_X86_64_TPOFF32 then
                Inr (store_u32 buf loc (ucast (S + A - tls_end out)), i)
              else if t = R_X86_64_DTPOFF64 \<or> t = R_X86_64_TPOFF64 then
                Inr (store_u64 buf loc (S + A - tls_end out), i)
              else if t = R_X86_64_GOTTPOFF then
                Inr (store_u32 buf loc (ucast (get_gottpoff_addr sym + A - P)), i)
              else if t = R_X86_64_PC64 then Inr (store_u64 buf loc (S + A - P), i)
              else if t = R_X86_64_GOTPC32 then Inr (store_u32 buf loc (ucast (GOT + A - P)), i)
              else Inl (UnknownRelocation (to_string isec) t))"

lemma apply_reloc_index:
  "apply_reloc out heap isec i buf = Inr (buf', i') \<Longrightarrow> i \<le> i'"
  by (auto simp: apply_reloc_def Let_def split: if_splits)

text \<open>\<open>for (int i = 0; i < rels.size(); i++)\<close>, from index \<open>i\<close> on.\<close>

function copy_buf_loop ::
  "OutCtx \<Rightarrow> (nat \<Rightarrow> Symbol) \<Rightarrow> InputSection \<Rightarrow> nat \<Rightarrow> mem \<Rightarrow> error + mem" where
  "copy_buf_loop out heap isec i buf =
     (if i < length (rels isec) then
        (case apply_reloc out heap isec i buf of
           Inl e \<Rightarrow> Inl e
         | Inr r \<Rightarrow> copy_buf_loop out heap isec (snd r + 1) (fst r))
      else Inr buf)"
  by pat_completeness auto
termination
  by (relation "measure (\<lambda>(out, heap, isec, i, buf). length (rels isec) - i)")
     (auto dest: apply_reloc_index simp: prod_eq_iff)

declare copy_buf_loop.simps [simp del]

definition copy_buf :: "OutCtx \<Rightarrow> (nat \<Rightarrow> Symbol) \<Rightarrow> InputSection \<Rightarrow> mem \<Rightarrow> error + mem" where
  "copy_buf out heap isec buf =
     (if sh_type (shdr isec) = SHT_NOBITS \<or> sh_size (shdr isec) = 0 then Inr buf
      else
        let buf1 = memcpy buf (sh_offset (output_section_shdr out) + offset isec) (contents isec)
        in copy_buf_loop out heap isec 0 buf1)"

section \<open>Scanning relocations (\<open>InputSection::scan_relocations\<close>, input_sections.cc)\<close>

text \<open>
  What the scanner changes: the symbols (a heap indexed by symbol pointer, as
  several relocations and several files share one \<open>Symbol\<close>) and the flag
  \<open>has_error\<close> of the file that owns the section.
\<close>

record ScanState =
  heap :: "nat \<Rightarrow> Symbol"
  has_error :: bool

text \<open>
  How an execution ends: normally, by the fatal \<open>error(...)\<close>, by a failed
  \<open>assert\<close>, or by reading \<open>rels\<close> past its end (the array is not checked;
  the model makes the out-of-range read an outcome of its own).  Assertions are
  modelled as compiled in.
\<close>

datatype 'a outcome = Ok 'a | Fatal error | AssertionFailed | OutOfBounds

definition direct_family :: "u32 \<Rightarrow> bool" where
  "direct_family t \<longleftrightarrow>
     t = R_X86_64_8 \<or> t = R_X86_64_16 \<or> t = R_X86_64_32 \<or> t = R_X86_64_32S \<or>
     t = R_X86_64_64 \<or> t = R_X86_64_PC8 \<or> t = R_X86_64_PC16 \<or> t = R_X86_64_PC32 \<or>
     t = R_X86_64_PC64"

definition got_family :: "u32 \<Rightarrow> bool" where
  "got_family t \<longleftrightarrow>
     t = R_X86_64_GOT32 \<or> t = R_X86_64_GOTPC32 \<or> t = R_X86_64_GOTPCREL \<or>
     t = R_X86_64_GOTPCRELX \<or> t = R_X86_64_REX_GOTPCRELX"

text \<open>
  \<open>assert(rels[i + 1].r_type == R_X86_64_PLT32)\<close>: the read of \<open>rels[i + 1]\<close>
  comes first, the comparison second.
\<close>

definition assert_next_plt32 :: "ElfRela list \<Rightarrow> nat \<Rightarrow> 'a outcome \<Rightarrow> 'a outcome" where
  "assert_next_plt32 rs i k =
     (if length rs \<le> i + 1 then OutOfBounds
      else if r_type (rs ! (i + 1)) \<noteq> R_X86_64_PLT32 then AssertionFailed
      else k)"

text \<open>
  The loop body at index \<open>i\<close>; as in \<open>apply_reloc\<close> the index returned is the
  value of \<open>i\<close> at the end of the iteration.
\<close>

definition scan_reloc :: "InputSection \<Rightarrow> nat \<Rightarrow> ScanState \<Rightarrow> (ScanState \<times> nat) outcome" where
  "scan_reloc isec i st =
     (let rel = rels isec ! i;
          p = symbols isec ! unat (r_sym rel);
          sym = heap st p;
          t = r_type rel
      in if sym_file sym = None \<or> is_placeholder sym then Ok (st\<lparr>has_error := True\<rparr>, i)
         else if t = R_X86_64_NONE then Ok (st, i)
         else if direct_family t then
           (if is_imported sym then
              (if type sym = STT_OBJECT
               then Ok (st\<lparr>heap := (heap st)(p := sym\<lparr>needs_copyrel := True\<rparr>)\<rparr>, i)
               else Ok (st\<lparr>heap := (heap st)(p := sym\<lparr>needs_plt := True\<rparr>)\<rparr>, i))
            else Ok (st, i))
         else if got_family t then
           Ok (st\<lparr>heap := (heap st)(p := sym\<lparr>needs_got := True\<rparr>)\<rparr>, i)
         else if t = R_X86_64_PLT32 then
           (if is_imported sym \<or> type sym = STT_GNU_IFUNC
            then Ok (st\<lparr>heap := (heap st)(p := sym\<lparr>needs_plt := True\<rparr>)\<rparr>, i)
            else Ok (st, i))
         else if t = R_X86_64_TLSGD then
           assert_next_plt32 (rels isec) i
             (if is_imported sym
              then Ok (st\<lparr>heap := (heap st)(p := sym\<lparr>needs_tlsgd := True\<rparr>)\<rparr>, i)
              else Ok (st, i + 1))
         else if t = R_X86_64_TLSLD then
           assert_next_plt32 (rels isec) i
             (if is_imported sym
              then Ok (st\<lparr>heap := (heap st)(p := sym\<lparr>needs_tlsld := True\<rparr>)\<rparr>, i)
              else Ok (st, i + 1))
         else if t = R_X86_64_TPOFF32 \<or> t = R_X86_64_TPOFF64 \<or> t = R_X86_64_DTPOFF32
                 \<or> t = R_X86_64_DTPOFF64 then Ok (st, i)
         else if t = R_X86_64_GOTTPOFF then
           Ok (st\<lparr>heap := (heap st)(p := sym\<lparr>needs_gottpoff := True\<rparr>)\<rparr>, i)
         else Fatal (UnknownRelocation (to_string isec) t))"

lemma scan_reloc_index:
  "scan_reloc isec i st = Ok (st', i') \<Longrightarrow> i \<le> i'"
  by (auto simp: scan_reloc_def assert_next_plt32_def Let_def split: if_splits)

function scan_loop :: "InputSection \<Rightarrow> nat \<Rightarrow> ScanState \<Rightarrow> ScanState outcome" where
  "scan_loop isec i st =
     (if i < length (rels isec) then
        (case scan_reloc isec i st of
           Ok r \<Rightarrow> scan_loop isec (snd r + 1) (fst r)
         | Fatal e \<Rightarrow> Fatal e
         | AssertionFailed \<Rightarrow> AssertionFailed
         | OutOfBounds \<Rightarrow> OutOfBounds)
      else Ok st)"
  by pat_completeness auto
termination
  by (relation "measure (\<lambda>(isec, i, st). length (rels isec) - i)")
     (auto dest: scan_reloc_index simp: prod_eq_iff)

declare scan_loop.simps [simp del]

definition scan_relocations :: "InputSection \<Rightarrow> ScanState \<Rightarrow> ScanState outcome" where
  "scan_relocations isec st =
     (if sh_flags (shdr isec) AND SHF_ALLOC = 0 then Ok st
      else scan_loop isec 0 st)"

text \<open>
  The indices at which the loop body runs, for a run that ends normally: the
  loop of \<open>scan_relocations\<close> again, recording \<open>i\<close> instead of the state.
\<close>

function scan_visits :: "InputSection \<Rightarrow> nat \<Rightarrow> ScanState \<Rightarrow> nat list" where
  "scan_visits isec i st =
     (if i < length (rels isec) then
        i # (case scan_reloc isec i st of
               Ok r \<Rightarrow> scan_visits isec (snd r + 1) (fst r)
             | _ \<Rightarrow> [])
      else [])"
  by pat_completeness auto
termination
  by (relation "measure (\<lambda>(isec, i, st). length (rels isec) - i)")
     (auto dest: scan_reloc_index simp: prod_eq_iff)

declare scan_visits.simps [simp del]

section \<open>Scanning all files (\<open>scan_rels\<close>, main.cc)\<close>

text \<open>
  An object file as the scan sees it: its input sections and its flag
  \<open>has_error\<close>, here \<open>file_has_error\<close>.
\<close>

record ObjectFile_scan =
  sections :: "InputSection list"
  file_has_error :: bool

text \<open>
  Modelled from the spec: \<open>ObjectFile::scan_relocations\<close> is defined outside the
  sources.  The specification has the scanner work on every relocation in every
  allocated input section, so the scan of a file runs
  \<open>InputSection::scan_relocations\<close> on its sections one after another; a run
  that does not end normally ends the scan.
\<close>

fun ObjectFile_scan_relocations :: "InputSection list \<Rightarrow> ScanState \<Rightarrow> ScanState outcome" where
  "ObjectFile_scan_relocations [] st = Ok st"
| "ObjectFile_scan_relocations (sec # secs) st =
     (case scan_relocations sec st of
        Ok st' \<Rightarrow> ObjectFile_scan_relocations secs st'
      | Fatal e \<Rightarrow> Fatal e
      | AssertionFailed \<Rightarrow> AssertionFailed
      | OutOfBounds \<Rightarrow> OutOfBounds)"

text \<open>
  The first statement of \<open>scan_rels\<close>: \<open>file->scan_relocations()\<close> for every
  file of \<open>out::objs\<close>, the files taken one after another.  The symbols are
  shared by all files; each file has a flag of its own.
\<close>

fun scan_objs ::
  "ObjectFile_scan list \<Rightarrow> (nat \<Rightarrow> Symbol) \<Rightarrow> ((nat \<Rightarrow> Symbol) \<times> ObjectFile_scan list) outcome" where
  "scan_objs [] hp = Ok (hp, [])"
| "scan_objs (f # objs) hp =
     (case ObjectFile_scan_relocations (sections f)
             \<lparr>heap = hp, has_error = file_has_error f\<rparr> of
        Ok st \<Rightarrow>
          (case scan_objs objs (heap st) of
             Ok r \<Rightarrow> Ok (fst r, f\<lparr>file_has_error := has_error st\<rparr> # snd r)
           | Fatal e \<Rightarrow> Fatal e
           | AssertionFailed \<Rightarrow> AssertionFailed
           | OutOfBounds \<Rightarrow> OutOfBounds)
      | Fatal e \<Rightarrow> Fatal e
      | AssertionFailed \<Rightarrow> AssertionFailed
      | OutOfBounds \<Rightarrow> OutOfBounds)"

text \<open>
  Modelled from the spec: \<open>Error::checkpoint()\<close> is declared outside the sources.
  The specification has errors recorded and deferred to the next checkpoint,
  which aborts if any error was recorded; \<open>scan_rels\<close> calls it under the
  comment \<open>Exit if there was a relocation that refers an undefined symbol\<close>.
  Here the recorded errors are the flags of the files: the checkpoint exits if
  a file has its flag set, and returns otherwise.
\<close>

datatype 'a checked = Passed 'a | Exits

definition checkpoint :: "ObjectFile_scan list \<Rightarrow> 'a \<Rightarrow> 'a checked" where
  "checkpoint objs k = (if list_ex file_has_error objs then Exits else Passed k)"

text \<open>
  \<open>scan_rels\<close> up to and including its checkpoint; what follows the checkpoint
  (the dynamic symbol tables) is not modelled.
\<close>

definition scan_rels ::
  "ObjectFile_scan list \<Rightarrow> (nat \<Rightarrow> Symbol)
     \<Rightarrow> ((nat \<Rightarrow> Symbol) \<times> ObjectFile_scan list) checked outcome" where
  "scan_rels objs hp =
     (case scan_objs objs hp of
        Ok r \<Rightarrow> Ok (checkpoint (snd r) r)
      | Fatal e \<Rightarrow> Fatal e
      | AssertionFailed \<Rightarrow> AssertionFailed
      | OutOfBounds \<Rightarrow> OutOfBounds)"

section \<open>Splitting mergeable strings (\<open>MergeableSection::MergeableSection\<close>, input_sections.cc)\<close>






section \<open>Layout arithmetic\<close>

text \<open>
  Modelled from the spec: \<open>align_to\<close> is declared in \<open>mold.h\<close>, which is not among
  the sources.  The specification has it round a value up to the alignment
  (``round vaddr up to PAGE_SIZE'', ``round both to the chunk's alignment'');
  on 64-bit values and power-of-two alignments that is the mask expression
  below, which wraps around like every other 64-bit operation.
\<close>

definition align_to :: "u64 \<Rightarrow> u64 \<Rightarrow> u64" where
  "align_to val align = (val + align - 1) AND NOT (align - 1)"

text \<open>\<open>%\<close> on \<open>i64\<close> truncates towards zero: the remainder has the sign of the dividend.\<close>

definition srem :: "i64 \<Rightarrow> i64 \<Rightarrow> i64" where
  "srem a b = word_of_int (sint a smod sint b)"

text \<open>\<open>std::max<i64>(a, b)\<close> is \<open>(a < b) ? b : a\<close> on signed values.\<close>

definition max_i64 :: "i64 \<Rightarrow> i64 \<Rightarrow> i64" where
  "max_i64 a b = (if a <s b then b else a)"

section \<open>File offsets and addresses of output chunks (\<open>set_osec_offsets\<close>, main.cc)\<close>

record OutputChunk =
  chunk_shdr :: ElfShdr
  starts_new_ptload :: bool

text \<open>
  The comparator \<open>main\<close> hands to \<open>sort\<close> to order \<open>out::chunks\<close>: signed
  \<open><\<close> on the ranks of the two headers.
\<close>

definition rank_less :: "OutputChunk \<Rightarrow> OutputChunk \<Rightarrow> bool" where
  "rank_less a b = (get_section_rank (chunk_shdr a) <s get_section_rank (chunk_shdr b))"

text \<open>
  The loop over the chunks, with the running \<open>fileoff\<close> and \<open>vaddr\<close>.  The
  constant \<open>PAGE_SIZE\<close> is declared outside the sources and is a parameter
  here.  The chunks of the span are distinct objects; the result lists them
  with their headers as the loop leaves them, and the final \<open>fileoff\<close>.
\<close>

fun set_osec_offsets_loop ::
  "i64 \<Rightarrow> i64 \<Rightarrow> i64 \<Rightarrow> OutputChunk list \<Rightarrow> OutputChunk list \<times> i64" where
  "set_osec_offsets_loop PAGE_SIZE fileoff vaddr [] = ([], fileoff)"
| "set_osec_offsets_loop PAGE_SIZE fileoff vaddr (chunk # chunks) =
     (let vaddr1 = (if starts_new_ptload chunk then align_to vaddr PAGE_SIZE else vaddr);
          fileoff1 =
            (if srem fileoff PAGE_SIZE <s srem vaddr1 PAGE_SIZE
             then fileoff + (srem vaddr1 PAGE_SIZE - srem fileoff PAGE_SIZE)
             else if srem vaddr1 PAGE_SIZE <s srem fileoff PAGE_SIZE
             then align_to fileoff PAGE_SIZE + srem vaddr1 PAGE_SIZE
             else fileoff);
          fileoff2 = align_to fileoff1 (sh_addralign (chunk_shdr chunk));
          vaddr2 = align_to vaddr1 (sh_addralign (chunk_shdr chunk));
          shdr1 = (chunk_shdr chunk)\<lparr>sh_offset := fileoff2\<rparr>;
          shdr2 = (if sh_flags shdr1 AND SHF_ALLOC \<noteq> 0 then shdr1\<lparr>sh_addr := vaddr2\<rparr>
                   else shdr1);
          is_bss = (sh_type shdr2 = SHT_NOBITS);
          fileoff3 = (if \<not> is_bss then fileoff2 + sh_size shdr2 else fileoff2);
          is_tbss = (is_bss \<and> sh_flags shdr2 AND SHF_TLS \<noteq> 0);
          vaddr3 = (if \<not> is_tbss then vaddr2 + sh_size shdr2 else vaddr2);
          rest = set_osec_offsets_loop PAGE_SIZE fileoff3 vaddr3 chunks
      in (chunk\<lparr>chunk_shdr := shdr2\<rparr> # fst rest, snd rest))"

text \<open>\<open>fileoff\<close> starts at 0 and \<open>vaddr\<close> at \<open>config.image_base\<close>.\<close>

definition set_osec_offsets ::
  "i64 \<Rightarrow> i64 \<Rightarrow> OutputChunk list \<Rightarrow> OutputChunk list \<times> i64" where
  "set_osec_offsets PAGE_SIZE image_base chunks =
     set_osec_offsets_loop PAGE_SIZE 0 image_base chunks"

section \<open>Offsets of input sections (\<open>split\<close> and \<open>set_isec_offsets\<close>, main.cc)\<close>

text \<open>
  \<open>split\<close> cuts a vector into spans of \<open>unit\<close> elements and a shorter rest.
  With \<open>unit = 0\<close> its loop never ends, so the loop is a partial function:
  \<open>None\<close> stands for a call that does not return.  \<open>split\<close> itself asserts
  that its input is not empty; a failed assertion does not return either.
\<close>

partial_function (option) split_loop ::
  "'a list \<Rightarrow> nat \<Rightarrow> 'a list list \<Rightarrow> 'a list list option" where
  "split_loop span unit vec =
     (if unit \<le> length span
      then split_loop (drop unit span) unit (vec @ [take unit span])
      else Some (if span \<noteq> [] then vec @ [span] else vec))"

declare split_loop.simps [code]

definition split :: "'a list \<Rightarrow> nat \<Rightarrow> 'a list list option" where
  "split input unit = (if input = [] then None else split_loop input unit [])"

record OutputSection =
  osec_shdr :: ElfShdr
  members :: "InputChunk list"

text \<open>
  The first parallel loop, for one slice: offsets relative to the slice, the
  slice's size and its alignment.
\<close>

fun slice_offsets ::
  "i64 \<Rightarrow> i64 \<Rightarrow> InputChunk list \<Rightarrow> InputChunk list \<times> i64 \<times> i64" where
  "slice_offsets off align [] = ([], off, align)"
| "slice_offsets off align (isec # isecs) =
     (let off1 = align_to off (sh_addralign (shdr isec));
          isec' = isec\<lparr>offset := off1\<rparr>;
          off2 = off1 + sh_size (shdr isec);
          align' = max_i64 align (sh_addralign (shdr isec));
          rest = slice_offsets off2 align' isecs
      in (isec' # fst rest, snd rest))"

text \<open>\<open>*std::max_element(first, last)\<close> on \<open>i64\<close>: the first greatest element.\<close>

fun max_element :: "i64 \<Rightarrow> i64 list \<Rightarrow> i64" where
  "max_element m [] = m"
| "max_element m (x # xs) = max_element (if m <s x then x else m) xs"

text \<open>
  The serial loop: \<open>start[0] = 0\<close>, \<open>start[i] = align_to(start[i-1] + size[i-1], align)\<close>.
  \<open>slice_starts align s sizes\<close> lists the starts of the slices whose sizes are
  \<open>sizes\<close>, the first of them starting at \<open>s\<close>.
\<close>

fun slice_starts :: "i64 \<Rightarrow> i64 \<Rightarrow> i64 list \<Rightarrow> i64 list" where
  "slice_starts align s [] = []"
| "slice_starts align s (sz # sizes) = s # slice_starts align (align_to (s + sz) align) sizes"

text \<open>The second parallel loop: \<open>isec->offset += start[i]\<close> in every slice but the first.\<close>

definition add_start :: "i64 \<Rightarrow> InputChunk list \<Rightarrow> InputChunk list" where
  "add_start s isecs = map (\<lambda>isec. isec\<lparr>offset := offset isec + s\<rparr>) isecs"

text \<open>
  The body of \<open>set_isec_offsets\<close> for one output section, with the slice
  length as a parameter; the source calls \<open>split(osec->members, 10000)\<close>.
\<close>

definition set_isec_offsets_unit :: "nat \<Rightarrow> OutputSection \<Rightarrow> OutputSection option" where
  "set_isec_offsets_unit unit osec =
     (if members osec = [] then Some osec
      else
        case split (members osec) unit of
          None \<Rightarrow> None
        | Some slices \<Rightarrow>
            let pass1 = map (slice_offsets 0 1) slices;
                sizes = map (\<lambda>r. fst (snd r)) pass1;
                alignments = map (\<lambda>r. snd (snd r)) pass1;
                align = max_element (hd alignments) (tl alignments);
                start = slice_starts align 0 sizes;
                pass2 = fst (hd pass1) #
                        map (\<lambda>(s, r). add_start s (fst r)) (zip (tl start) (tl pass1))
            in Some (osec\<lparr>members := concat pass2,
                          osec_shdr := (osec_shdr osec)\<lparr>sh_size := last start + last sizes,
                                                       sh_addralign := align\<rparr>\<rparr>))"

definition set_isec_offsets :: "OutputSection \<Rightarrow> OutputSection option" where
  "set_isec_offsets osec = set_isec_offsets_unit 10000 osec"

section \<open>Owners of string fragments (\<open>handle_mergeable_strings\<close>, main.cc)\<close>

text \<open>
  Files, mergeable sections and fragments refer to each other by pointer; each
  kind lives in a heap of its own, indexed by pointer.  \<open>isec\<close> is the atomic
  owner pointer of a fragment.
\<close>

record SectionFragment =
  is_alive :: bool
  isec :: "nat option"

record MergeableSection =
  msec_file :: nat
  fragments :: "nat list"

record ObjectFile =
  priority :: int
  mergeable_sections :: "nat list"

record Heaps =
  files :: "nat \<Rightarrow> ObjectFile"
  msecs :: "nat \<Rightarrow> MergeableSection"

text \<open>
  One fragment of one section: the loop
  \<open>while (!cur || cur->file->priority > isec->file->priority)
     if (frag->isec.compare_exchange_weak(cur, isec)) break;\<close>
  run without interference.  \<open>cur\<close> was just read from \<open>frag->isec\<close>, so the
  exchange finds the expected value and stores \<open>isec\<close>: the loop body runs at
  most once.
\<close>

definition claim_fragment ::
  "Heaps \<Rightarrow> nat \<Rightarrow> nat \<Rightarrow> (nat \<Rightarrow> SectionFragment) \<Rightarrow> (nat \<Rightarrow> SectionFragment)" where
  "claim_fragment h isec_p frag_p frags =
     (let frag = frags frag_p in
      if \<not> is_alive frag then frags
      else
        let cur = isec frag in
        if (case cur of None \<Rightarrow> True
            | Some c \<Rightarrow> priority (files h (msec_file (msecs h isec_p)))
                        < priority (files h (msec_file (msecs h c))))
        then frags(frag_p := frag\<lparr>isec := Some isec_p\<rparr>)
        else frags)"

text \<open>The three nested loops of the first pass, files taken one after another.\<close>

definition claim_section ::
  "Heaps \<Rightarrow> nat \<Rightarrow> (nat \<Rightarrow> SectionFragment) \<Rightarrow> (nat \<Rightarrow> SectionFragment)" where
  "claim_section h isec_p frags = fold (claim_fragment h isec_p) (fragments (msecs h isec_p)) frags"

definition claim_file ::
  "Heaps \<Rightarrow> nat \<Rightarrow> (nat \<Rightarrow> SectionFragment) \<Rightarrow> (nat \<Rightarrow> SectionFragment)" where
  "claim_file h file_p frags = fold (claim_section h) (mergeable_sections (files h file_p)) frags"

definition resolve_fragments ::
  "Heaps \<Rightarrow> nat list \<Rightarrow> (nat \<Rightarrow> SectionFragment) \<Rightarrow> (nat \<Rightarrow> SectionFragment)" where
  "resolve_fragments h objs frags = fold (claim_file h) objs frags"

section \<open>Auxiliary notions used in the statements\<close>

text \<open>The rank as a function of the six bits, most significant first.\<close>

definition rank_of_bits :: "bool list \<Rightarrow> i64" where
  "rank_of_bits bs =
     push_bit 6 (of_bool (bs ! 0)) OR push_bit 5 (of_bool (bs ! 1)) OR
     push_bit 4 (of_bool (bs ! 2)) OR push_bit 3 (of_bool (bs ! 3)) OR
     push_bit 2 (of_bool (bs ! 4)) OR of_bool (bs ! 5)"

text \<open>
  The second statement of the loop body of \<open>set_osec_offsets\<close>, which moves
  \<open>fileoff\<close> forward until it agrees with \<open>vaddr\<close> within the page.
\<close>

definition rectify :: "i64 \<Rightarrow> i64 \<Rightarrow> i64 \<Rightarrow> i64" where
  "rectify PAGE_SIZE fileoff vaddr =
     (if srem fileoff PAGE_SIZE <s srem vaddr PAGE_SIZE
      then fileoff + (srem vaddr PAGE_SIZE - srem fileoff PAGE_SIZE)
      else if srem vaddr PAGE_SIZE <s srem fileoff PAGE_SIZE
      then align_to fileoff PAGE_SIZE + srem vaddr PAGE_SIZE
      else fileoff)"

text \<open>
  \<open>only_placed c c'\<close>: chunk \<open>c'\<close> is chunk \<open>c\<close> with, at most, a new file
  offset and a new address.
\<close>

definition only_placed :: "OutputChunk \<Rightarrow> OutputChunk \<Rightarrow> bool" where
  "only_placed c c' \<longleftrightarrow>
     c' = c\<lparr>chunk_shdr := (chunk_shdr c)\<lparr>sh_offset := sh_offset (chunk_shdr c'),
                                          sh_addr := sh_addr (chunk_shdr c')\<rparr>\<rparr>"

text \<open>
  The layout invariant of a chunk for the page size \<open>2 ^ k\<close>; \<open>mod\<close> on
  the unsigned header fields.
\<close>

definition chunk_placed_ok :: "nat \<Rightarrow> OutputChunk \<Rightarrow> bool" where
  "chunk_placed_ok k c \<longleftrightarrow>
     sh_offset (chunk_shdr c) mod sh_addralign (chunk_shdr c) = 0 \<and>
     (sh_flags (chunk_shdr c) AND SHF_ALLOC \<noteq> 0 \<longrightarrow>
        sh_addr (chunk_shdr c) mod 2 ^ k = sh_offset (chunk_shdr c) mod 2 ^ k)"

text \<open>Example chunks: one header of each kind, and a small image.\<close>

definition mk_chunk :: "u32 \<Rightarrow> u64 \<Rightarrow> u64 \<Rightarrow> u64 \<Rightarrow> bool \<Rightarrow> OutputChunk" where
  "mk_chunk ty flags sz al ptload =
     \<lparr>chunk_shdr = \<lparr>sh_type = ty, sh_flags = flags, sh_addr = 0, sh_offset = 0,
                    sh_size = sz, sh_addralign = al\<rparr>,
      starts_new_ptload = ptload\<rparr>"

definition example_sorted_chunks :: "OutputChunk list" where
  "example_sorted_chunks =
     [mk_chunk 7 2 32 4 True,
      mk_chunk 1 2 100 8 False,
      mk_chunk 1 6 4660 16 True,
      mk_chunk 1 1027 24 8 True,
      mk_chunk 8 1027 16 8 False,
      mk_chunk 1 3 300 32 False,
      mk_chunk 8 3 8192 64 False,
      mk_chunk 1 0 77 1 False]"

text \<open>The priority of the file a mergeable section belongs to: \<open>isec->file->priority\<close>.\<close>

definition msec_priority :: "Heaps \<Rightarrow> nat \<Rightarrow> int" where
  "msec_priority h m = priority (files h (msec_file (msecs h m)))"

text \<open>
  The pairs (section, fragment) in the order in which the first pass of
  \<open>handle_mergeable_strings\<close> visits them when it takes the files of
  \<open>objs\<close> one after another.
\<close>

definition claim_steps :: "Heaps \<Rightarrow> nat list \<Rightarrow> (nat \<times> nat) list" where
  "claim_steps h objs =
     concat (map (\<lambda>f. concat (map (\<lambda>m. map (\<lambda>p. (m, p)) (fragments (msecs h m)))
                                    (mergeable_sections (files h f)))) objs)"

text \<open>\<open>file_contains h f p\<close>: a mergeable section of file \<open>f\<close> lists fragment \<open>p\<close>.\<close>

definition file_contains :: "Heaps \<Rightarrow> nat \<Rightarrow> nat \<Rightarrow> bool" where
  "file_contains h f p \<longleftrightarrow>
     (\<exists>m \<in> set (mergeable_sections (files h f)). p \<in> set (fragments (msecs h m)))"

text \<open>Claiming along a list of (section, fragment) pairs, one pair after another.\<close>

definition claim_all ::
  "Heaps \<Rightarrow> (nat \<times> nat) list \<Rightarrow> (nat \<Rightarrow> SectionFragment) \<Rightarrow> (nat \<Rightarrow> SectionFragment)" where
  "claim_all h ps frags = fold (\<lambda>s. claim_fragment h (fst s) (snd s)) ps frags"

text \<open>
  \<open>owner_ok h ps p old r\<close>: after the claims \<open>ps\<close>, the owner \<open>r\<close> of fragment
  \<open>p\<close> is the old owner or one of the claiming sections, and no claiming
  section, nor the old owner, has a lower priority value than \<open>r\<close>.
\<close>

definition owner_ok ::
  "Heaps \<Rightarrow> (nat \<times> nat) list \<Rightarrow> nat \<Rightarrow> nat option \<Rightarrow> nat option \<Rightarrow> bool" where
  "owner_ok h ps p old r \<longleftrightarrow>
     (r = old \<or> (\<exists>m. r = Some m \<and> (m, p) \<in> set ps)) \<and>
     (\<forall>m. (m, p) \<in> set ps \<or> old = Some m \<longrightarrow>
        (\<exists>m'. r = Some m' \<and> msec_priority h m' \<le> msec_priority h m))"

text \<open>
  Example: file 0 (priority 3) with section 10 holding fragments 0 and 1, file 1
  (priority 2) with section 11 holding fragments 1 and 2; all fragments alive
  and unowned.
\<close>

definition example_heaps :: Heaps where
  "example_heaps =
     \<lparr>files = (\<lambda>f. if f = 0 then \<lparr>priority = 3, mergeable_sections = [10]\<rparr>
                     else \<lparr>priority = 2, mergeable_sections = [11]\<rparr>),
      msecs = (\<lambda>m. if m = 10 then \<lparr>msec_file = 0, fragments = [0, 1]\<rparr>
                     else \<lparr>msec_file = 1, fragments = [1, 2]\<rparr>)\<rparr>"

definition example_frags :: "nat \<Rightarrow> SectionFragment" where
  "example_frags = (\<lambda>p. \<lparr>is_alive = True, isec = None\<rparr>)"

text \<open>
  \<open>lowest_owner h objs p r\<close>: the owner pointer \<open>r\<close> of fragment \<open>p\<close> holds a
  mergeable section that belongs to a file of \<open>objs\<close>, is listed by that file,
  lists \<open>p\<close>, and whose file has the lowest priority among the files of
  \<open>objs\<close> that contain \<open>p\<close>.
\<close>

definition lowest_owner :: "Heaps \<Rightarrow> nat list \<Rightarrow> nat \<Rightarrow> nat option \<Rightarrow> bool" where
  "lowest_owner h objs p r \<longleftrightarrow>
     (case r of None \<Rightarrow> False
      | Some m \<Rightarrow>
          msec_file (msecs h m) \<in> set objs \<and>
          m \<in> set (mergeable_sections (files h (msec_file (msecs h m)))) \<and>
          p \<in> set (fragments (msecs h m)) \<and>
          (\<forall>f \<in> set objs. file_contains h f p \<longrightarrow>
             priority (files h (msec_file (msecs h m))) \<le> priority (files h f)))"

text \<open>
  Example: the two files above and a third file 2 (priority 1) with section 12
  holding fragment 3.
\<close>

definition example_three_heaps :: Heaps where
  "example_three_heaps =
     \<lparr>files = (\<lambda>f. if f = 0 then \<lparr>priority = 3, mergeable_sections = [10]\<rparr>
                     else if f = 1 then \<lparr>priority = 2, mergeable_sections = [11]\<rparr>
                     else \<lparr>priority = 1, mergeable_sections = [12]\<rparr>),
      msecs = (\<lambda>m. if m = 10 then \<lparr>msec_file = 0, fragments = [0, 1]\<rparr>
                     else if m = 11 then \<lparr>msec_file = 1, fragments = [1, 2]\<rparr>
                     else \<lparr>msec_file = 2, fragments = [3]\<rparr>)\<rparr>"

text \<open>
  A payload read as a sequence of NUL-terminated strings followed by a rest
  without NUL: \<open>terminated bs\<close> lists the strings \<open>b @ [NUL]\<close>, and
  \<open>pieces_from off ss\<close> pairs each string with the 32-bit offset it starts
  at when the first one starts at \<open>off\<close>.
\<close>

definition terminated :: "string list \<Rightarrow> string list" where
  "terminated bs = map (\<lambda>b. b @ [CHR 0x00]) bs"

fun pieces_from :: "u32 \<Rightarrow> string list \<Rightarrow> (string \<times> u32) list" where
  "pieces_from off [] = []"
| "pieces_from off (s # ss) = (s, off) # pieces_from (off + of_nat (length s)) ss"


text \<open>
  \<open>reloc_sym\<close>: the symbol pointer \<open>file->symbols[rels[i].r_sym]\<close>;
  \<open>resolved\<close>: the symbol has a defining file and is not a placeholder.
\<close>

definition reloc_sym :: "InputSection \<Rightarrow> nat \<Rightarrow> nat" where
  "reloc_sym sec i = symbols sec ! unat (r_sym (rels sec ! i))"

definition resolved :: "Symbol \<Rightarrow> bool" where
  "resolved s \<longleftrightarrow> sym_file s \<noteq> None \<and> \<not> is_placeholder s"

text \<open>Example symbols and sections for the relocation passes.\<close>

definition mk_symbol :: "nat option \<Rightarrow> bool \<Rightarrow> u8 \<Rightarrow> u64 \<Rightarrow> Symbol" where
  "mk_symbol f imp ty a =
     \<lparr>sym_file = f, is_placeholder = False, is_imported = imp, type = ty,
      needs_got = False, needs_plt = False, needs_copyrel = False, needs_gottpoff = False,
      needs_tlsgd = False, needs_tlsld = False,
      plt_idx = - 1, tlsgd_idx = - 1, tlsld_idx = - 1,
      get_addr = a, get_plt_addr = 0x401020, get_got_addr = 0x403008,
      get_tlsgd_addr = 0x403010, get_tlsld_addr = 0x403020, get_gottpoff_addr = 0x403030\<rparr>"

text \<open>
  Symbol 0: a thread-local variable defined in file 0, not imported.
  Symbol 1: a function defined in shared object 1, imported.
  Symbol 2: an imported data object.  Every other symbol: undefined (no file).
\<close>

definition example_heap :: "nat \<Rightarrow> Symbol" where
  "example_heap =
     (\<lambda>p. if p = 0 then mk_symbol (Some 0) False 6 0x404010
          else if p = 1 then mk_symbol (Some 1) True 2 0
          else if p = 2 then mk_symbol (Some 1) True 1 0
          else mk_symbol None False 0 0)"

definition example_state :: ScanState where
  "example_state = \<lparr>heap = example_heap, has_error = False\<rparr>"

definition mk_isec :: "u64 \<Rightarrow> ElfRela list \<Rightarrow> InputSection" where
  "mk_isec flags rs =
     \<lparr>shdr = \<lparr>sh_type = 1, sh_flags = flags, sh_addr = 0, sh_offset = 0, sh_size = 16,
              sh_addralign = 16\<rparr>,
      name = ''.text'', file_str = ''a.o'', offset = 32,
      symbols = [0, 1, 2, 3], rels = rs,
      rel_pieces = map (\<lambda>r. \<lparr>piece = None, addend = 0\<rparr>) rs,
      contents = [0x66, 0x48, 0x8d, 0x3d, 0, 0, 0, 0, 0x66, 0x66, 0x48, 0xe8, 0, 0, 0, 0]\<rparr>"

definition mk_rela :: "u64 \<Rightarrow> u32 \<Rightarrow> u32 \<Rightarrow> i64 \<Rightarrow> ElfRela" where
  "mk_rela off sy ty add = \<lparr>r_offset = off, r_sym = sy, r_type = ty, r_addend = add\<rparr>"

text \<open>
  A general-dynamic TLS access to the local symbol 0 with its paired call of
  symbol 1 through the PLT, in an allocated section.
\<close>

definition example_gd_isec :: InputSection where
  "example_gd_isec =
     mk_isec 6 [mk_rela 4 0 R_X86_64_TLSGD (- 4), mk_rela 12 1 R_X86_64_PLT32 (- 4)]"

text \<open>A non-allocated section with one relocation against the undefined symbol 3.\<close>

definition example_debug_isec :: InputSection where
  "example_debug_isec = mk_isec 0 [mk_rela 0 3 R_X86_64_64 0]"

text \<open>An allocated section whose only, hence last, relocation is a TLSGD against the
  undefined symbol 3.\<close>

definition example_trailing_isec :: InputSection where
  "example_trailing_isec = mk_isec 6 [mk_rela 4 3 R_X86_64_TLSGD (- 4)]"

text \<open>An allocated section with a direct reference to the imported object 2, a GOT
  reference to symbol 0 and a PLT call of symbol 1.\<close>

definition example_plain_isec :: InputSection where
  "example_plain_isec =
     mk_isec 6 [mk_rela 0 2 R_X86_64_PC32 (- 4), mk_rela 4 0 R_X86_64_GOTPCREL (- 4),
                mk_rela 8 1 R_X86_64_PLT32 (- 4)]"

text \<open>
  \<open>trailing_tls\<close>: the last relocation of the section is a TLSGD or TLSLD
  against a resolved symbol.
\<close>

definition trailing_tls :: "InputSection \<Rightarrow> ScanState \<Rightarrow> bool" where
  "trailing_tls sec st \<longleftrightarrow>
     rels sec \<noteq> [] \<and>
     resolved (heap st (reloc_sym sec (length (rels sec) - 1))) \<and>
     (r_type (last (rels sec)) = R_X86_64_TLSGD \<or> r_type (last (rels sec)) = R_X86_64_TLSLD)"

text \<open>
  The location \<open>loc = base + rel.r_offset\<close> and the place
  \<open>P = output_section.addr + isec.offset + rel.offset\<close> of relocation \<open>i\<close>.
\<close>

definition reloc_loc :: "OutCtx \<Rightarrow> InputSection \<Rightarrow> nat \<Rightarrow> u64" where
  "reloc_loc out sec i =
     sh_offset (output_section_shdr out) + offset sec + r_offset (rels sec ! i)"

definition reloc_P :: "OutCtx \<Rightarrow> InputSection \<Rightarrow> nat \<Rightarrow> u64" where
  "reloc_P out sec i =
     sh_addr (output_section_shdr out) + offset sec + r_offset (rels sec ! i)"

text \<open>
  The table of the specification, in its words: for each relocation type the
  width and the value written at the location.  \<open>S\<close> is the string-piece
  address if the relocation targets a merged piece, else the symbol's address;
  \<open>A\<close> the corresponding addend; \<open>L\<close> the PLT entry address; \<open>G\<close> the GOT
  slot address minus the \<open>.got\<close> base; \<open>GOT\<close> the \<open>.got\<close> base.  \<open>None\<close>: the
  type is not in the table.
\<close>

datatype store = W8 u8 | W16 u16 | W32 u32 | W64 u64 | NoWrite

fun do_write :: "mem \<Rightarrow> u64 \<Rightarrow> store \<Rightarrow> mem" where
  "do_write m a (W8 v) = store_u8 m a v"
| "do_write m a (W16 v) = store_u16 m a v"
| "do_write m a (W32 v) = store_u32 m a v"
| "do_write m a (W64 v) = store_u64 m a v"
| "do_write m a NoWrite = m"

definition spec_S :: "Symbol \<Rightarrow> StringPieceRef \<Rightarrow> u64" where
  "spec_S s ref = (if piece ref \<noteq> None then the (piece ref) else get_addr s)"

definition spec_A :: "StringPieceRef \<Rightarrow> ElfRela \<Rightarrow> i64" where
  "spec_A ref rel = (if piece ref \<noteq> None then addend ref else r_addend rel)"

definition spec_table ::
  "OutCtx \<Rightarrow> Symbol \<Rightarrow> StringPieceRef \<Rightarrow> ElfRela \<Rightarrow> u64 \<Rightarrow> store option" where
  "spec_table out s ref rel P =
     (let S = spec_S s ref;
          A = spec_A ref rel;
          L = get_plt_addr s;
          G = get_got_addr s - got_sh_addr out;
          GOT = got_sh_addr out;
          t = r_type rel
      in if t = R_X86_64_64 then Some (W64 (S + A))
         else if t = R_X86_64_PC32 then Some (W32 (ucast (S + A - P)))
         else if t = R_X86_64_GOT32 then Some (W64 (G + A))
         else if t = R_X86_64_PLT32 then
           Some (W32 (ucast ((if plt_idx s = - 1 then S else L) + A - P)))
         else if t \<in> {R_X86_64_GOTPCREL, R_X86_64_GOTPCRELX, R_X86_64_REX_GOTPCRELX} then
           Some (W32 (ucast (G + GOT + A - P)))
         else if t \<in> {R_X86_64_32, R_X86_64_32S} then Some (W32 (ucast (S + A)))
         else if t = R_X86_64_16 then Some (W16 (ucast (S + A)))
         else if t = R_X86_64_PC16 then Some (W16 (ucast (S + A - P)))
         else if t = R_X86_64_8 then Some (W8 (ucast (S + A)))
         else if t = R_X86_64_PC8 then Some (W8 (ucast (S + A - P)))
         else if t \<in> {R_X86_64_DTPOFF32, R_X86_64_TPOFF32} then
           Some (W32 (ucast (S + A - tls_end out)))
         else if t \<in> {R_X86_64_DTPOFF64, R_X86_64_TPOFF64} then
           Some (W64 (S + A - tls_end out))
         else if t = R_X86_64_GOTTPOFF then Some (W32 (ucast (get_gottpoff_addr s + A - P)))
         else if t = R_X86_64_PC64 then Some (W64 (S + A - P))
         else if t = R_X86_64_GOTPC32 then Some (W32 (ucast (GOT + A - P)))
         else if t = R_X86_64_NONE then Some NoWrite
         else None)"

text \<open>The bytes a run of \<open>copy_buf\<close> leaves at an address, if it completes.\<close>

definition result_bytes :: "error + mem \<Rightarrow> u64 \<Rightarrow> nat \<Rightarrow> u8 list option" where
  "result_bytes r a n = (case r of Inl e \<Rightarrow> None | Inr m \<Rightarrow> Some (load_bytes m a n))"

text \<open>Example output context, and a section whose TLSGD refers to the undefined symbol 3.\<close>

definition example_out :: OutCtx where
  "example_out =
     \<lparr>output_section_shdr = \<lparr>sh_type = 1, sh_flags = 6, sh_addr = 0x401000,
                              sh_offset = 0x1000, sh_size = 0x100, sh_addralign = 16\<rparr>,
      got_sh_addr = 0x403000, tls_end = 0x404020\<rparr>"

definition example_gd_undef_isec :: InputSection where
  "example_gd_undef_isec =
     mk_isec 0 [mk_rela 4 3 R_X86_64_TLSGD (- 4), mk_rela 12 1 R_X86_64_PLT32 (- 4)]"

definition zero_mem :: mem where
  "zero_mem = (\<lambda>a. 0)"

text \<open>An allocated section whose last relocation is a TLSGD against the resolved symbol 0.\<close>

definition example_trailing_resolved_isec :: InputSection where
  "example_trailing_resolved_isec =
     mk_isec 6 [mk_rela 0 2 R_X86_64_PC32 (- 4), mk_rela 4 0 R_X86_64_TLSGD (- 4)]"

lemmas example_defs =
  example_out_def example_heap_def example_state_def example_gd_isec_def
  example_gd_undef_isec_def example_debug_isec_def example_trailing_isec_def
  example_trailing_resolved_isec_def example_plain_isec_def
  mk_isec_def mk_rela_def mk_symbol_def zero_mem_def

text \<open>
  \<open>same_linkage h1 h2\<close>: the two symbol heaps agree on what the scanner
  reads of a symbol (its defining file, whether it is a placeholder, whether
  it is imported, its type); they may differ in the need-flags.
\<close>

definition same_linkage :: "(nat \<Rightarrow> Symbol) \<Rightarrow> (nat \<Rightarrow> Symbol) \<Rightarrow> bool" where
  "same_linkage h1 h2 \<longleftrightarrow>
     (\<forall>p. sym_file (h1 p) = sym_file (h2 p) \<and> is_placeholder (h1 p) = is_placeholder (h2 p) \<and>
          is_imported (h1 p) = is_imported (h2 p) \<and> type (h1 p) = type (h2 p))"

text \<open>
  Example: two object files.  The first holds the allocated section with the
  three resolved references; the second holds the non-allocated section and
  the allocated section whose relocation refers to the undefined symbol 3.
\<close>

definition example_objs :: "ObjectFile_scan list" where
  "example_objs =
     [\<lparr>sections = [example_plain_isec], file_has_error = False\<rparr>,
      \<lparr>sections = [example_debug_isec, example_trailing_isec], file_has_error = False\<rparr>]"

text \<open>
  What \<open>split\<close> returns when it returns: the input cut into spans of
  \<open>unit\<close> elements and a shorter, non-empty rest.
\<close>

function chop :: "nat \<Rightarrow> 'a list \<Rightarrow> 'a list list" where
  "chop unit xs =
     (if 0 < unit \<and> unit \<le> length xs then take unit xs # chop unit (drop unit xs)
      else if xs \<noteq> [] then [xs] else [])"
  by pat_completeness auto
termination
  by (relation "measure (\<lambda>(unit, xs). length xs)") auto

declare chop.simps [simp del]

text \<open>
  The layout of \<open>set_isec_offsets\<close> computed in unbounded natural numbers, to
  say when the 64-bit computation does not wrap around.  A member is given by
  its alignment and size.  \<open>slice_end_nat off ms\<close> is where a slice laid out
  from \<open>off\<close> ends; \<open>layout_end_nat A s slices\<close> is where the section ends
  when its slices are laid out from \<open>s\<close>, each later slice starting at the
  next multiple of \<open>A\<close>.
\<close>

definition align_nat :: "nat \<Rightarrow> nat \<Rightarrow> nat" where
  "align_nat v a = ((v + a - 1) div a) * a"

fun slice_end_nat :: "nat \<Rightarrow> (nat \<times> nat) list \<Rightarrow> nat" where
  "slice_end_nat off [] = off"
| "slice_end_nat off (m # ms) = slice_end_nat (align_nat off (fst m) + snd m) ms"

fun layout_end_nat :: "nat \<Rightarrow> nat \<Rightarrow> (nat \<times> nat) list list \<Rightarrow> nat" where
  "layout_end_nat A s [] = s"
| "layout_end_nat A s [sl] = s + slice_end_nat 0 sl"
| "layout_end_nat A s (sl # sl' # sls) =
     layout_end_nat A (align_nat (s + slice_end_nat 0 sl) A) (sl' # sls)"

definition member_spec :: "InputChunk \<Rightarrow> nat \<times> nat" where
  "member_spec m = (unat (sh_addralign (shdr m)), unat (sh_size (shdr m)))"

definition section_end_nat :: "nat \<Rightarrow> InputChunk list \<Rightarrow> nat" where
  "section_end_nat unit ms =
     layout_end_nat (Max (set (map fst (map member_spec ms)))) 0
       (chop unit (map member_spec ms))"

text \<open>\<open>only_offset m m'\<close>: \<open>m'\<close> is \<open>m\<close> with, at most, a new offset.\<close>

definition only_offset :: "InputChunk \<Rightarrow> InputChunk \<Rightarrow> bool" where
  "only_offset m m' \<longleftrightarrow> m' = m\<lparr>offset := offset m'\<rparr>"

text \<open>The half-open byte range of a member within its output section.\<close>

definition byte_range :: "InputChunk \<Rightarrow> nat set" where
  "byte_range m = {unat (offset m) ..< unat (offset m) + unat (sh_size (shdr m))}"

text \<open>
  \<open>chained lo ms hi\<close>: the members lie one after another between \<open>lo\<close> and
  \<open>hi\<close>, each starting no earlier than the previous one ends.
\<close>

fun chained :: "nat \<Rightarrow> InputChunk list \<Rightarrow> nat \<Rightarrow> bool" where
  "chained lo [] hi \<longleftrightarrow> lo \<le> hi"
| "chained lo (m # ms) hi \<longleftrightarrow>
     lo \<le> unat (offset m) \<and> chained (unat (offset m) + unat (sh_size (shdr m))) ms hi"

text \<open>
  The three passes of \<open>set_isec_offsets\<close> taken slice by slice: the members
  of the slices with their final offsets, and the section size, when the first
  slice starts at \<open>s\<close>.
\<close>

fun layout_slices :: "i64 \<Rightarrow> i64 \<Rightarrow> InputChunk list list \<Rightarrow> InputChunk list list \<times> i64" where
  "layout_slices A s [] = ([], s)"
| "layout_slices A s [sl] =
     ([add_start s (fst (slice_offsets 0 1 sl))], s + fst (snd (slice_offsets 0 1 sl)))"
| "layout_slices A s (sl # sl' # sls) =
     (let rest = layout_slices A (align_to (s + fst (snd (slice_offsets 0 1 sl))) A) (sl' # sls)
      in (add_start s (fst (slice_offsets 0 1 sl)) # fst rest, snd rest))"

text \<open>Example members: sizes and alignments of five sections, and three huge ones.\<close>

definition mk_member :: "u64 \<Rightarrow> u64 \<Rightarrow> InputChunk" where
  "mk_member sz al =
     \<lparr>shdr = \<lparr>sh_type = 1, sh_flags = 2, sh_addr = 0, sh_offset = 0, sh_size = sz,
              sh_addralign = al\<rparr>,
      name = ''.data'', file_str = ''a.o'', offset = 0\<rparr>"

definition example_osec :: OutputSection where
  "example_osec =
     \<lparr>osec_shdr = \<lparr>sh_type = 1, sh_flags = 2, sh_addr = 0, sh_offset = 0, sh_size = 0,
                   sh_addralign = 1\<rparr>,
      members = [mk_member 3 1, mk_member 8 8, mk_member 5 4, mk_member 1 16, mk_member 2 2]\<rparr>"

definition example_huge_osec :: OutputSection where
  "example_huge_osec =
     \<lparr>osec_shdr = \<lparr>sh_type = 8, sh_flags = 3, sh_addr = 0, sh_offset = 0, sh_size = 0,
                   sh_addralign = 1\<rparr>,
      members = [mk_member 0x8000000000000000 1, mk_member 0x8000000000000000 1,
                 mk_member 1 1]\<rparr>"

section \<open>Properties\<close>

subsection \<open>Section ranks\<close>

lemma rank_eq_rank_of_bits: "get_section_rank s = rank_of_bits (rank_bits s)"
  by (simp add: get_section_rank_def rank_of_bits_def rank_bits_def Let_def)

lemma sint_rank_of_bits:
  "sint (rank_of_bits [a1, a2, a3, a4, a5, a6]) =
     64 * of_bool a1 + 32 * of_bool a2 + 16 * of_bool a3 + 8 * of_bool a4 +
     4 * of_bool a5 + of_bool a6"
  by (cases a1; cases a2; cases a3; cases a4; cases a5; cases a6)
     (simp_all add: rank_of_bits_def)

lemma rank_of_bits_lexord:
  "rank_of_bits [a1, a2, a3, a4, a5, a6] <s rank_of_bits [b1, b2, b3, b4, b5, b6] \<longleftrightarrow>
     ([a1, a2, a3, a4, a5, a6], [b1, b2, b3, b4, b5, b6]) \<in> lexord {(x, y). x < y}"
  unfolding word_sless_alt sint_rank_of_bits
  by (auto simp add: of_bool_def)

lemma rank_less_lexord:
  "rank_less a b \<longleftrightarrow>
     (rank_bits (chunk_shdr a), rank_bits (chunk_shdr b)) \<in> lexord {(x, y). x < y}"
  unfolding rank_less_def rank_eq_rank_of_bits
  by (simp only: rank_bits_def rank_of_bits_lexord)

lemma kind_pos_rank_less:
  assumes "kind_of (chunk_shdr a) = Some ka" "kind_of (chunk_shdr b) = Some kb"
    and "kind_pos ka < kind_pos kb"
  shows "rank_less a b"
  using assms
  unfolding rank_less_def rank_eq_rank_of_bits rank_bits_def word_sless_alt sint_rank_of_bits
  by (auto simp add: kind_of_def Let_def SHT_NOTE_def SHT_NOBITS_def split: if_splits)

text \<open>
  Claim C6.  Comparing two headers by rank is the lexicographic comparison of
  their bit tuples \<open>(!note, !alloc, writable, exec, !tls, nobits)\<close>, with
  \<open>False\<close> before \<open>True\<close>.  Consequently, in any list of chunks that is sorted
  by the rank comparator (no chunk ranks below an earlier one), the kinds of
  the specification appear in its order: NOTE, allocated read-only data,
  allocated read-only code, allocated writable tdata, tbss, data, bss, and
  non-allocated sections last.
\<close>

theorem get_section_rank_order:
  "(rank_less a b \<longleftrightarrow>
      (rank_bits (chunk_shdr a), rank_bits (chunk_shdr b)) \<in> lexord {(x, y). x < y}) \<and>
   (sorted_wrt (\<lambda>x y. \<not> rank_less y x) chunks \<longrightarrow>
      (\<forall>i j ki kj. i < j \<and> j < length chunks \<and>
          kind_of (chunk_shdr (chunks ! i)) = Some ki \<and>
          kind_of (chunk_shdr (chunks ! j)) = Some kj \<longrightarrow>
          kind_pos ki \<le> kind_pos kj))"
proof (intro conjI impI allI)
  show "rank_less a b \<longleftrightarrow>
      (rank_bits (chunk_shdr a), rank_bits (chunk_shdr b)) \<in> lexord {(x, y). x < y}"
    by (rule rank_less_lexord)
next
  fix i j ki kj
  assume sorted: "sorted_wrt (\<lambda>x y. \<not> rank_less y x) chunks"
    and ij: "i < j \<and> j < length chunks \<and>
          kind_of (chunk_shdr (chunks ! i)) = Some ki \<and>
          kind_of (chunk_shdr (chunks ! j)) = Some kj"
  from sorted ij have "\<not> rank_less (chunks ! j) (chunks ! i)"
    by (simp add: sorted_wrt_iff_nth_less)
  with ij have "\<not> kind_pos kj < kind_pos ki"
    using kind_pos_rank_less by blast
  then show "kind_pos ki \<le> kind_pos kj" by simp
qed

theorem get_section_rank_order_witness:
  "sorted_wrt (\<lambda>x y. \<not> rank_less y x) example_sorted_chunks \<and>
   kind_of (chunk_shdr (example_sorted_chunks ! 3)) = Some ALLOC_RW_TDATA \<and>
   kind_of (chunk_shdr (example_sorted_chunks ! 5)) = Some ALLOC_RW_DATA \<and>
   kind_pos ALLOC_RW_TDATA \<le> kind_pos ALLOC_RW_DATA \<and>
   rank_less (example_sorted_chunks ! 3) (example_sorted_chunks ! 5) \<and>
   (rank_bits (chunk_shdr (example_sorted_chunks ! 3)),
    rank_bits (chunk_shdr (example_sorted_chunks ! 5))) \<in> lexord {(x, y). x < y}"
proof -
  have s: "sorted_wrt (\<lambda>x y. \<not> rank_less y x) example_sorted_chunks"
    by (simp add: example_sorted_chunks_def mk_chunk_def rank_less_def get_section_rank_def
        SHT_NOTE_def SHT_NOBITS_def SHF_WRITE_def SHF_ALLOC_def SHF_EXECINSTR_def SHF_TLS_def
        word_sless_alt)
  have k3: "kind_of (chunk_shdr (example_sorted_chunks ! 3)) = Some ALLOC_RW_TDATA"
    by (simp add: example_sorted_chunks_def mk_chunk_def kind_of_def
        SHT_NOTE_def SHT_NOBITS_def SHF_WRITE_def SHF_ALLOC_def SHF_EXECINSTR_def SHF_TLS_def)
  have k5: "kind_of (chunk_shdr (example_sorted_chunks ! 5)) = Some ALLOC_RW_DATA"
    by (simp add: example_sorted_chunks_def mk_chunk_def kind_of_def
        SHT_NOTE_def SHT_NOBITS_def SHF_WRITE_def SHF_ALLOC_def SHF_EXECINSTR_def SHF_TLS_def)
  have r: "rank_less (example_sorted_chunks ! 3) (example_sorted_chunks ! 5)"
    by (simp add: example_sorted_chunks_def mk_chunk_def rank_less_def get_section_rank_def
        SHT_NOTE_def SHT_NOBITS_def SHF_WRITE_def SHF_ALLOC_def SHF_EXECINSTR_def SHF_TLS_def
        word_sless_alt)
  from get_section_rank_order
    [of "example_sorted_chunks ! 3" "example_sorted_chunks ! 5" example_sorted_chunks]
  have "(rank_bits (chunk_shdr (example_sorted_chunks ! 3)),
         rank_bits (chunk_shdr (example_sorted_chunks ! 5))) \<in> lexord {(x, y). x < y}"
    and "kind_pos ALLOC_RW_TDATA \<le> kind_pos ALLOC_RW_DATA"
    using s k3 k5 r by (auto simp add: example_sorted_chunks_def)
  with s k3 k5 r show ?thesis by blast
qed

subsection \<open>Arithmetic modulo a power of two\<close>

lemma word_take_bit_add:
  "take_bit k (take_bit k a + take_bit k b) = take_bit k (a + b :: 'a::len word)"
proof (cases "k \<le> LENGTH('a)")
  case True
  have "uint (take_bit k (take_bit k a + take_bit k b)) = uint (take_bit k (a + b))"
    using True
    apply (simp add: unsigned_take_bit_eq uint_word_arith_bintrs take_bit_take_bit min_def)
    apply (metis take_bit_add)
    done
  then show ?thesis by (simp add: word_uint_eq_iff)
next
  case False
  then show ?thesis by (simp add: take_bit_word_beyond_length_eq)
qed

lemma word_take_bit_diff:
  "take_bit k (take_bit k a - take_bit k b) = take_bit k (a - b :: 'a::len word)"
proof (cases "k \<le> LENGTH('a)")
  case True
  have "uint (take_bit k (take_bit k a - take_bit k b)) = uint (take_bit k (a - b))"
    using True
    apply (simp add: unsigned_take_bit_eq uint_word_arith_bintrs take_bit_take_bit min_def)
    apply (metis take_bit_diff)
    done
  then show ?thesis by (simp add: word_uint_eq_iff)
next
  case False
  then show ?thesis by (simp add: take_bit_word_beyond_length_eq)
qed

lemma sint_pow2:
  assumes "k < 63"
  shows "sint (2 ^ k :: i64) = 2 ^ k"
proof -
  have "(2::int) ^ k < 2 ^ 63"
    using assms by (intro power_strict_increasing) auto
  moreover have "- (2 ^ 63) \<le> (2::int) ^ k"
    by (smt (verit) zero_le_power)
  moreover have "(2 ^ k :: i64) = word_of_int (2 ^ k)"
    by simp
  ultimately show ?thesis
    by (simp add: sint_sbintrunc' signed_take_bit_int_eq_self del: of_int_power)
qed

lemma align_to_pow2: "align_to v (2 ^ n) = (v + mask n) AND NOT (mask n)"
  by (simp add: align_to_def mask_eq_decr_exp algebra_simps)

lemma take_bit_align_to_zero: "take_bit n (align_to v (2 ^ n)) = 0"
  unfolding align_to_pow2
  by (rule bit_eqI) (auto simp add: bit_simps)

lemma align_to_mod_zero: "align_to v (2 ^ n) mod 2 ^ n = 0"
  using take_bit_align_to_zero [of n v] by (simp add: take_bit_eq_mod)

lemma take_bit_align_to_cong:
  assumes "take_bit k v = take_bit k f"
  shows "take_bit k (align_to v a) = take_bit k (align_to f a)"
proof -
  have "take_bit k (v + (a - 1)) = take_bit k (take_bit k v + take_bit k (a - 1))"
    by (simp add: word_take_bit_add)
  also have "\<dots> = take_bit k (f + (a - 1))"
    by (simp add: assms word_take_bit_add)
  finally have "take_bit k (v + a - 1) = take_bit k (f + a - 1)"
    by (simp add: algebra_simps)
  then show ?thesis
    by (simp add: align_to_def take_bit_and [of k])
qed

lemma smod_mod_pos: "0 < b \<Longrightarrow> (a smod b) mod b = a mod (b::int)"
  by (simp add: signed_modulo_int_eq_modulo_int)

lemma take_bit_srem:
  assumes "k < 63"
  shows "take_bit k (srem x (2 ^ k)) = take_bit k x"
proof -
  have s: "sint (2 ^ k :: i64) = 2 ^ k"
    using assms by (rule sint_pow2)
  have "take_bit k (srem x (2 ^ k)) = word_of_int (take_bit k (sint x smod 2 ^ k))"
    unfolding srem_def s by (simp add: take_bit_of_int)
  also have "\<dots> = word_of_int (take_bit k (sint x))"
    by (simp add: take_bit_eq_mod smod_mod_pos)
  also have "\<dots> = take_bit k x"
    by (metis of_int_sint scast_id take_bit_of_int)
  finally show ?thesis .
qed

lemma sless_total:
  assumes "\<not> a <s b" "\<not> b <s a"
  shows "a = (b :: 'a::len word)"
proof -
  from assms have "sint a = sint b"
    by (simp add: word_sless_alt)
  then show ?thesis
    by (rule signed_word_eqI)
qed

subsection \<open>File offsets and addresses\<close>

lemma take_bit_rectify:
  assumes k: "k < 63"
  shows "take_bit k (rectify (2 ^ k) f v) = take_bit k v"
proof -
  let ?P = "2 ^ k :: i64"
  consider (lt) "srem f ?P <s srem v ?P"
    | (gt) "\<not> srem f ?P <s srem v ?P" "srem v ?P <s srem f ?P"
    | (eq) "\<not> srem f ?P <s srem v ?P" "\<not> srem v ?P <s srem f ?P"
    by blast
  then show ?thesis
  proof cases
    case lt
    have "take_bit k (f + (srem v ?P - srem f ?P)) =
          take_bit k (take_bit k f + take_bit k (take_bit k (srem v ?P) - take_bit k (srem f ?P)))"
      by (simp only: word_take_bit_add word_take_bit_diff)
    also have "\<dots> = take_bit k (take_bit k f + take_bit k (take_bit k v - take_bit k f))"
      by (simp only: take_bit_srem [OF k])
    also have "\<dots> = take_bit k (f + (v - f))"
      by (simp only: word_take_bit_add word_take_bit_diff)
    finally show ?thesis
      using lt by (simp add: rectify_def)
  next
    case gt
    have "take_bit k (align_to f ?P + srem v ?P) =
          take_bit k (take_bit k (align_to f ?P) + take_bit k (srem v ?P))"
      by (simp only: word_take_bit_add)
    also have "\<dots> = take_bit k v"
      by (simp add: take_bit_align_to_zero take_bit_srem [OF k])
    finally show ?thesis
      using gt by (simp add: rectify_def)
  next
    case eq
    then have "srem f ?P = srem v ?P"
      by (metis sless_total)
    then have "take_bit k (srem f ?P) = take_bit k (srem v ?P)"
      by simp
    then show ?thesis
      using eq by (simp add: rectify_def take_bit_srem [OF k])
  qed
qed

lemma rectify_unfold:
  "(if srem fileoff PS <s srem vaddr1 PS
    then fileoff + (srem vaddr1 PS - srem fileoff PS)
    else if srem vaddr1 PS <s srem fileoff PS
    then align_to fileoff PS + srem vaddr1 PS
    else fileoff) = rectify PS fileoff vaddr1"
  by (simp add: rectify_def)

lemma set_osec_offsets_loop_length:
  "length (fst (set_osec_offsets_loop PS f v chunks)) = length chunks"
  by (induction chunks arbitrary: f v) (simp_all add: Let_def)

lemma set_osec_offsets_loop_only_placed:
  "i < length chunks \<Longrightarrow>
     only_placed (chunks ! i) (fst (set_osec_offsets_loop PS f v chunks) ! i)"
proof (induction chunks arbitrary: f v i)
  case Nil
  then show ?case by simp
next
  case (Cons c cs)
  show ?case
  proof (cases i)
    case 0
    then show ?thesis by (simp add: Let_def only_placed_def)
  next
    case (Suc j)
    with Cons.prems have "j < length cs" by simp
    from Cons.IH [OF this] show ?thesis using Suc by (simp add: Let_def)
  qed
qed

lemma set_osec_offsets_loop_placed_ok:
  assumes k: "k < 63"
    and al: "\<forall>c \<in> set chunks. \<exists>n\<le>k. sh_addralign (chunk_shdr c) = 2 ^ n"
  shows "\<forall>c \<in> set (fst (set_osec_offsets_loop (2 ^ k) f v chunks)). chunk_placed_ok k c"
  using al
proof (induction chunks arbitrary: f v)
  case Nil
  then show ?case by simp
next
  case (Cons c cs)
  from Cons.prems obtain n where n: "n \<le> k" "sh_addralign (chunk_shdr c) = 2 ^ n"
    by auto
  define v1 where "v1 = (if starts_new_ptload c then align_to v (2 ^ k) else v)"
  define f1 where "f1 = rectify (2 ^ k) f v1"
  have cong: "take_bit k (align_to v1 (2 ^ n)) = take_bit k (align_to f1 (2 ^ n))"
    unfolding f1_def by (rule take_bit_align_to_cong) (simp add: take_bit_rectify [OF k])
  have hd_ok: "align_to f1 (2 ^ n) mod 2 ^ n = 0"
    by (rule align_to_mod_zero)
  have tl_ok: "\<forall>c \<in> set (fst (set_osec_offsets_loop (2 ^ k) f' v' cs)). chunk_placed_ok k c"
    for f' v'
    using Cons.IH Cons.prems by simp
  show ?case
    using hd_ok cong tl_ok n(2)
    by (simp add: Let_def rectify_unfold v1_def [symmetric] f1_def [symmetric]
        chunk_placed_ok_def take_bit_eq_mod)
qed

text \<open>
  Claim C4.  Let the page size be a power of two, \<open>2 ^ k\<close> (a positive
  \<open>i64\<close>, so \<open>k < 63\<close>), and let every chunk's \<open>sh_addralign\<close> be a power of two
  no greater than the page size.  Then \<open>set_osec_offsets\<close>, from any image
  base, returns the same chunks with only file offsets and addresses set, and
  every chunk has \<open>sh_offset mod sh_addralign = 0\<close> and, if it has
  \<open>SHF_ALLOC\<close>, \<open>sh_addr mod PAGE_SIZE = sh_offset mod PAGE_SIZE\<close>.  The
  arithmetic is the 64-bit arithmetic of the source, wrap-around included.
\<close>

theorem set_osec_offsets_alignment:
  assumes "k < 63"
    and "\<forall>c \<in> set chunks. \<exists>n\<le>k. sh_addralign (chunk_shdr c) = 2 ^ n"
  shows "length (fst (set_osec_offsets (2 ^ k) image_base chunks)) = length chunks \<and>
         (\<forall>i < length chunks.
            only_placed (chunks ! i) (fst (set_osec_offsets (2 ^ k) image_base chunks) ! i)) \<and>
         (\<forall>c \<in> set (fst (set_osec_offsets (2 ^ k) image_base chunks)). chunk_placed_ok k c)"
  unfolding set_osec_offsets_def
  using set_osec_offsets_loop_placed_ok [OF assms]
  by (simp add: set_osec_offsets_loop_length set_osec_offsets_loop_only_placed)

theorem set_osec_offsets_alignment_witness:
  "(12::nat) < 63 \<and>
   list_all (\<lambda>c. \<exists>n\<le>12. sh_addralign (chunk_shdr c) = 2 ^ n) example_sorted_chunks \<and>
   map (\<lambda>c. (sh_offset (chunk_shdr c), sh_addr (chunk_shdr c)))
       (fst (set_osec_offsets (2 ^ 12) 0x200000 example_sorted_chunks)) =
     [(0, 0x200000), (0x20, 0x200020), (0x1000, 0x201000), (0x3000, 0x203000),
      (0x3018, 0x203018), (0x3020, 0x203020), (0x3180, 0x203180), (0x3180, 0)] \<and>
   list_all (chunk_placed_ok 12) (fst (set_osec_offsets (2 ^ 12) 0x200000 example_sorted_chunks))"
proof -
  have k: "(12::nat) < 63"
    by simp
  have p: "\<exists>n\<le>12. (4::u64) = 2 ^ n" "\<exists>n\<le>12. (8::u64) = 2 ^ n"
    "\<exists>n\<le>12. (16::u64) = 2 ^ n" "\<exists>n\<le>12. (32::u64) = 2 ^ n"
    "\<exists>n\<le>12. (64::u64) = 2 ^ n" "\<exists>n\<le>12. (1::u64) = 2 ^ n"
    by (rule exI [of _ 2], simp, rule exI [of _ 3], simp, rule exI [of _ 4], simp,
        rule exI [of _ 5], simp, rule exI [of _ 6], simp, rule exI [of _ 0], simp)
  have al: "\<forall>c \<in> set example_sorted_chunks. \<exists>n\<le>12. sh_addralign (chunk_shdr c) = 2 ^ n"
    using p by (simp add: example_sorted_chunks_def mk_chunk_def)
  have ev: "map (\<lambda>c. (sh_offset (chunk_shdr c), sh_addr (chunk_shdr c)))
       (fst (set_osec_offsets (2 ^ 12) 0x200000 example_sorted_chunks)) =
     [(0, 0x200000), (0x20, 0x200020), (0x1000, 0x201000), (0x3000, 0x203000),
      (0x3018, 0x203018), (0x3020, 0x203020), (0x3180, 0x203180), (0x3180, 0)]"
    by code_simp
  from set_osec_offsets_alignment [OF k al, of "0x200000"] k al ev
  show ?thesis
    by (simp only: list_all_iff) blast
qed

subsection \<open>Owners of string fragments\<close>

lemma claim_fragment_alive [simp]:
  "is_alive (claim_fragment h m q frags p) = is_alive (frags p)"
  by (simp add: claim_fragment_def Let_def)

lemma claim_fragment_other:
  "q \<noteq> p \<Longrightarrow> claim_fragment h m q frags p = frags p"
  by (simp add: claim_fragment_def Let_def)

lemma claim_fragment_same:
  assumes "is_alive (frags p)"
  shows "isec (claim_fragment h m p frags p) =
     (case isec (frags p) of None \<Rightarrow> Some m
      | Some c \<Rightarrow> if msec_priority h m < msec_priority h c then Some m else Some c)"
  using assms by (simp add: claim_fragment_def Let_def msec_priority_def split: option.splits)

lemma claim_all_Nil [simp]: "claim_all h [] frags = frags"
  by (simp add: claim_all_def)

lemma claim_all_Cons [simp]:
  "claim_all h (s # ps) frags = claim_all h ps (claim_fragment h (fst s) (snd s) frags)"
  by (simp add: claim_all_def)

lemma claim_all_append [simp]:
  "claim_all h (ps @ qs) frags = claim_all h qs (claim_all h ps frags)"
  by (simp add: claim_all_def)

lemma claim_all_alive [simp]:
  "is_alive (claim_all h ps frags p) = is_alive (frags p)"
  by (induction ps arbitrary: frags) simp_all

lemma owner_ok_step_other:
  assumes "owner_ok h ps p old r" "snd s \<noteq> p"
  shows "owner_ok h (s # ps) p old r"
  using assms unfolding owner_ok_def by (cases s) auto

lemma owner_ok_step_None:
  assumes "owner_ok h ps p (Some m) r"
  shows "owner_ok h ((m, p) # ps) p None r"
  using assms unfolding owner_ok_def by auto

lemma owner_ok_step_lt:
  assumes "owner_ok h ps p (Some m) r" "msec_priority h m < msec_priority h c"
  shows "owner_ok h ((m, p) # ps) p (Some c) r"
  using assms unfolding owner_ok_def by fastforce

lemma owner_ok_step_ge:
  assumes "owner_ok h ps p (Some c) r" "\<not> msec_priority h m < msec_priority h c"
  shows "owner_ok h ((m, p) # ps) p (Some c) r"
  using assms unfolding owner_ok_def by fastforce


lemma claim_all_owner:
  assumes "is_alive (frags p)"
  shows "owner_ok h ps p (isec (frags p)) (isec (claim_all h ps frags p))"
  using assms
proof (induction ps arbitrary: frags)
  case Nil
  then show ?case by (simp add: owner_ok_def)
next
  case (Cons s ps)
  let ?f1 = "claim_fragment h (fst s) (snd s) frags"
  have alive1: "is_alive (?f1 p)"
    using Cons.prems by simp
  have IH: "owner_ok h ps p (isec (?f1 p)) (isec (claim_all h ps ?f1 p))"
    using alive1 by (rule Cons.IH)
  show ?case
  proof (cases "snd s = p")
    case False
    then have "?f1 p = frags p"
      by (simp add: claim_fragment_other)
    with IH False show ?thesis
      by (simp add: owner_ok_step_other)
  next
    case True
    then have s: "s = (fst s, p)"
      by (cases s) simp
    have same: "isec (?f1 p) =
       (case isec (frags p) of None \<Rightarrow> Some (fst s)
        | Some c \<Rightarrow> if msec_priority h (fst s) < msec_priority h c then Some (fst s) else Some c)"
      using Cons.prems True by (simp add: claim_fragment_same)
    show ?thesis
    proof (cases "isec (frags p)")
      case None
      with same IH have "owner_ok h ps p (Some (fst s)) (isec (claim_all h ps ?f1 p))"
        by simp
      then have "owner_ok h ((fst s, p) # ps) p None (isec (claim_all h ps ?f1 p))"
        by (rule owner_ok_step_None)
      with None s show ?thesis
        by (metis claim_all_Cons)
    next
      case (Some c)
      show ?thesis
      proof (cases "msec_priority h (fst s) < msec_priority h c")
        case lt: True
        with same Some IH have "owner_ok h ps p (Some (fst s)) (isec (claim_all h ps ?f1 p))"
          by simp
        then have "owner_ok h ((fst s, p) # ps) p (Some c) (isec (claim_all h ps ?f1 p))"
          using lt by (rule owner_ok_step_lt)
        with Some s show ?thesis
          by (metis claim_all_Cons)
      next
        case ge: False
        with same Some IH have "owner_ok h ps p (Some c) (isec (claim_all h ps ?f1 p))"
          by simp
        then have "owner_ok h ((fst s, p) # ps) p (Some c) (isec (claim_all h ps ?f1 p))"
          using ge by (rule owner_ok_step_ge)
        with Some s show ?thesis
          by (metis claim_all_Cons)
      qed
    qed
  qed
qed

lemma claim_section_steps:
  "claim_section h m frags = claim_all h (map (\<lambda>p. (m, p)) (fragments (msecs h m))) frags"
  unfolding claim_section_def claim_all_def
  by (simp add: fold_map comp_def)

lemma fold_claim_section:
  "fold (claim_section h) ms frags =
     claim_all h (concat (map (\<lambda>m. map (\<lambda>p. (m, p)) (fragments (msecs h m))) ms)) frags"
  by (induction ms arbitrary: frags) (simp_all add: claim_section_steps)

lemma fold_claim_file:
  "fold (claim_file h) fs frags = claim_all h (claim_steps h fs) frags"
  by (induction fs arbitrary: frags)
     (simp_all add: claim_steps_def claim_file_def fold_claim_section)

lemma resolve_fragments_steps:
  "resolve_fragments h objs frags = claim_all h (claim_steps h objs) frags"
  by (simp add: resolve_fragments_def fold_claim_file)

lemma in_claim_steps:
  "(m, p) \<in> set (claim_steps h objs) \<longleftrightarrow>
     (\<exists>f \<in> set objs. m \<in> set (mergeable_sections (files h f)) \<and> p \<in> set (fragments (msecs h m)))"
  by (auto simp add: claim_steps_def)

text \<open>
  Claim C3, amended.  Let the files of \<open>objs\<close> be the live files, each
  mergeable section point back to the file that lists it, and no fragment have
  an owner before the pass.  Run the claiming loop once for every pair of a
  mergeable section of a live file and a fragment it lists, each run without
  interference, in any order whatever: \<open>ps\<close> lists these pairs in the order
  chosen.  The pass of \<open>handle_mergeable_strings\<close>, taking the files one
  after another in any order (\<open>order\<close>), is one such run.  Then a live
  fragment that some live file contains has an owner: its owner pointer holds
  one mergeable section, which belongs to a live file, lists the fragment,
  and whose file has the lowest priority among all live files whose mergeable
  sections contain the fragment.  A live fragment that no live file contains
  has no owner after the pass.
\<close>

theorem resolve_fragments_owner:
  assumes wf: "\<forall>f \<in> set objs. \<forall>m \<in> set (mergeable_sections (files h f)). msec_file (msecs h m) = f"
    and init: "\<forall>q. isec (frags q) = None"
    and sched: "set ps = set (claim_steps h objs)"
    and order: "set order = set objs"
    and alive: "is_alive (frags p)"
  shows "resolve_fragments h order frags = claim_all h (claim_steps h order) frags \<and>
         set (claim_steps h order) = set (claim_steps h objs) \<and>
         (if \<exists>f \<in> set objs. file_contains h f p
          then lowest_owner h objs p (isec (claim_all h ps frags p)) \<and>
               lowest_owner h objs p (isec (resolve_fragments h order frags p))
          else isec (claim_all h ps frags p) = None \<and>
               isec (resolve_fragments h order frags p) = None)"
proof -
  have steps: "set (claim_steps h order) = set (claim_steps h objs)"
    using order by (auto simp add: in_claim_steps)
  have general: "(if \<exists>f \<in> set objs. file_contains h f p
          then lowest_owner h objs p (isec (claim_all h qs frags p))
          else isec (claim_all h qs frags p) = None)"
    if qs: "set qs = set (claim_steps h objs)" for qs
  proof -
    let ?r = "isec (claim_all h qs frags p)"
    have ok: "owner_ok h qs p None ?r"
      using claim_all_owner [of frags p h qs, OF alive] init by simp
    show ?thesis
    proof (cases "\<exists>f \<in> set objs. file_contains h f p")
      case True
      then obtain f0 m0 where f0: "f0 \<in> set objs" "m0 \<in> set (mergeable_sections (files h f0))"
        "p \<in> set (fragments (msecs h m0))"
        by (auto simp add: file_contains_def)
      then have "(m0, p) \<in> set qs"
        using qs by (auto simp add: in_claim_steps)
      with ok obtain m where m: "?r = Some m" "(m, p) \<in> set qs"
        unfolding owner_ok_def by fastforce
      from m(2) qs obtain f where f: "f \<in> set objs" "m \<in> set (mergeable_sections (files h f))"
        "p \<in> set (fragments (msecs h m))"
        by (auto simp add: in_claim_steps)
      with wf have mf: "msec_file (msecs h m) = f"
        by simp
      have least: "priority (files h (msec_file (msecs h m))) \<le> priority (files h f')"
        if f': "f' \<in> set objs" "file_contains h f' p" for f'
      proof -
        from f' obtain m' where m': "m' \<in> set (mergeable_sections (files h f'))"
          "p \<in> set (fragments (msecs h m'))"
          by (auto simp add: file_contains_def)
        with f'(1) qs have "(m', p) \<in> set qs"
          by (auto simp add: in_claim_steps)
        with ok m(1) have "msec_priority h m \<le> msec_priority h m'"
          unfolding owner_ok_def by fastforce
        moreover from wf f'(1) m'(1) have "msec_file (msecs h m') = f'"
          by simp
        ultimately show ?thesis
          by (simp add: msec_priority_def)
      qed
      from m(1) f mf least have "lowest_owner h objs p ?r"
        by (simp add: lowest_owner_def)
      with True show ?thesis
        by simp
    next
      case False
      then have "\<And>m. (m, p) \<notin> set qs"
        using qs by (auto simp add: in_claim_steps file_contains_def)
      with ok have "?r = None"
        unfolding owner_ok_def by auto
      with False show ?thesis
        by simp
    qed
  qed
  from general [OF sched] general [OF steps] resolve_fragments_steps [of h order frags] steps
  show ?thesis
    by (simp split: if_splits)
qed

theorem resolve_fragments_owner_witness:
  "list_all (\<lambda>f. list_all (\<lambda>m. msec_file (msecs example_heaps m) = f)
                        (mergeable_sections (files example_heaps f))) [0, 1] \<and>
   (\<forall>q. isec (example_frags q) = None) \<and>
   claim_steps example_heaps [0, 1] = [(10, 0), (10, 1), (11, 1), (11, 2)] \<and>
   set [(11, 1), (10, 0), (11, 2), (10, 1)] = set (claim_steps example_heaps [0, 1]) \<and>
   set [1, 0] = set [0, 1 :: nat] \<and>
   is_alive (example_frags 1) \<and>
   file_contains example_heaps 0 1 \<and>
   file_contains example_heaps 1 1 \<and>
   isec (claim_all example_heaps [(11, 1), (10, 0), (11, 2), (10, 1)] example_frags 1) = Some 11 \<and>
   isec (resolve_fragments example_heaps [1, 0] example_frags 1) = Some 11 \<and>
   isec (resolve_fragments example_heaps [0, 1] example_frags 1) = Some 11 \<and>
   lowest_owner example_heaps [0, 1] 1 (Some 11) \<and>
   \<not> lowest_owner example_heaps [0, 1] 1 (Some 10) \<and>
   is_alive (example_frags 7) \<and>
   \<not> file_contains example_heaps 0 7 \<and>
   \<not> file_contains example_heaps 1 7 \<and>
   isec (resolve_fragments example_heaps [1, 0] example_frags 7) = None"
proof -
  have wf: "\<forall>f \<in> set [0, 1]. \<forall>m \<in> set (mergeable_sections (files example_heaps f)).
      msec_file (msecs example_heaps m) = f"
    by (simp add: example_heaps_def)
  have init: "\<forall>q. isec (example_frags q) = None"
    by (simp add: example_frags_def)
  have steps: "claim_steps example_heaps [0, 1] = [(10, 0), (10, 1), (11, 1), (11, 2)]"
    by (simp add: claim_steps_def example_heaps_def)
  have sched: "set [(11, 1), (10, 0), (11, 2), (10, 1)] = set (claim_steps example_heaps [0, 1])"
    unfolding steps by auto
  have order: "set [1, 0] = set [0, 1 :: nat]"
    by auto
  have alive: "is_alive (example_frags 1)" "is_alive (example_frags 7)"
    by (simp_all add: example_frags_def)
  have c: "file_contains example_heaps 0 1" "file_contains example_heaps 1 1"
    "\<not> file_contains example_heaps 0 7" "\<not> file_contains example_heaps 1 7"
    by (simp_all add: file_contains_def example_heaps_def)
  have e0: "isec (claim_all example_heaps [(11, 1), (10, 0), (11, 2), (10, 1)] example_frags 1)
      = Some 11"
    by (simp add: claim_all_def claim_fragment_def example_heaps_def example_frags_def Let_def)
  have e2: "isec (resolve_fragments example_heaps [0, 1] example_frags 1) = Some 11"
    by (simp add: resolve_fragments_def claim_file_def claim_section_def claim_fragment_def
        example_heaps_def example_frags_def Let_def)
  have n10: "\<not> lowest_owner example_heaps [0, 1] 1 (Some 10)"
    using c(2) by (auto simp add: lowest_owner_def example_heaps_def)
  have wf': "list_all (\<lambda>f. list_all (\<lambda>m. msec_file (msecs example_heaps m) = f)
                        (mergeable_sections (files example_heaps f))) [0, 1]"
    by (simp add: example_heaps_def)
  have "lowest_owner example_heaps [0, 1] 1
          (isec (resolve_fragments example_heaps [1, 0] example_frags 1))"
    using resolve_fragments_owner [OF wf init sched order alive(1)] c(1) by auto
  moreover have "isec (resolve_fragments example_heaps [1, 0] example_frags 1) = Some 11"
    by (simp add: resolve_fragments_def claim_file_def claim_section_def claim_fragment_def
        example_heaps_def example_frags_def Let_def)
  moreover have "isec (resolve_fragments example_heaps [1, 0] example_frags 7) = None"
    using resolve_fragments_owner [OF wf init sched order alive(2)] c(3,4) by auto
  ultimately show ?thesis
    using wf' init steps sched order alive c e0 e2 n10 by simp
qed

text \<open>
  The claim as stated fails for a live fragment that no live file contains.
  Below the live files are 0 and 1; fragment 3 is alive and listed only by
  section 12 of file 2, which is not among them.  After the pass fragment 3
  has no owner.
\<close>

theorem resolve_fragments_owner_counterexample:
  "is_alive (example_frags 3) \<and>
   isec (example_frags 3) = None \<and>
   fragments (msecs example_three_heaps 12) = [3] \<and>
   mergeable_sections (files example_three_heaps 2) = [12] \<and>
   \<not> file_contains example_three_heaps 0 3 \<and>
   \<not> file_contains example_three_heaps 1 3 \<and>
   isec (resolve_fragments example_three_heaps [0, 1] example_frags 3) = None"
  by (simp add: resolve_fragments_def claim_file_def claim_section_def claim_fragment_def
      file_contains_def example_three_heaps_def example_frags_def Let_def)

subsection \<open>Splitting mergeable strings\<close>



lemma terminated_Nil [simp]: "terminated [] = []"
  by (simp add: terminated_def)

lemma terminated_Cons [simp]: "terminated (b # bs) = (b @ [CHR 0x00]) # terminated bs"
  by (simp add: terminated_def)



lemma pieces_from_length [simp]: "length (pieces_from off ss) = length ss"
  by (induction ss arbitrary: off) simp_all

lemma payload_decomposition:
  "\<exists>bs t. data = concat (terminated bs) @ t \<and> (\<forall>b \<in> set bs. CHR 0x00 \<notin> set b) \<and>
          CHR 0x00 \<notin> set t"
proof (induction data rule: length_induct)
  case (1 data)
  show ?case
  proof (cases "CHR 0x00 \<in> set data")
    case False
    then have "data = concat (terminated []) @ data \<and> (\<forall>b \<in> set []. CHR 0x00 \<notin> set b) \<and>
        CHR 0x00 \<notin> set data"
      by simp
    then show ?thesis by blast
  next
    case True
    then obtain b rest where d: "data = b @ CHR 0x00 # rest" "CHR 0x00 \<notin> set b"
      by (meson split_list_first)
    then have "length rest < length data" by simp
    with 1 obtain bs t where r: "rest = concat (terminated bs) @ t"
      "\<forall>b \<in> set bs. CHR 0x00 \<notin> set b" "CHR 0x00 \<notin> set t"
      by blast
    with d have "data = concat (terminated (b # bs)) @ t \<and>
        (\<forall>b \<in> set (b # bs). CHR 0x00 \<notin> set b) \<and> CHR 0x00 \<notin> set t"
      by simp
    then show ?thesis by blast
  qed
qed






subsection \<open>Scanning relocations\<close>

lemma scan_loop_step:
  assumes "i < length (rels sec)" "scan_reloc sec i st = Ok (st', i')"
  shows "scan_loop sec i st = scan_loop sec (i' + 1) st'"
  using assms by (subst scan_loop.simps) simp

lemma scan_loop_done: "\<not> i < length (rels sec) \<Longrightarrow> scan_loop sec i st = Ok st"
  by (subst scan_loop.simps) simp







lemma scan_reloc_resolved:
  assumes "scan_reloc sec i st = Ok (st', i')"
  shows "resolved (heap st' q) = resolved (heap st q)"
  using assms
  by (auto simp add: scan_reloc_def Let_def resolved_def assert_next_plt32_def
      split: if_splits)

lemma scan_reloc_OutOfBounds:
  "scan_reloc sec i st = OutOfBounds \<longleftrightarrow>
     resolved (heap st (reloc_sym sec i)) \<and>
     (r_type (rels sec ! i) = R_X86_64_TLSGD \<or> r_type (rels sec ! i) = R_X86_64_TLSLD) \<and>
     length (rels sec) \<le> i + 1"
  by (auto simp add: scan_reloc_def Let_def resolved_def reloc_sym_def assert_next_plt32_def
      direct_family_def got_family_def R_defs split: if_splits)


lemma scan_visits_step:
  "i < length (rels sec) \<Longrightarrow>
     scan_visits sec i st =
       i # (case scan_reloc sec i st of Ok r \<Rightarrow> scan_visits sec (snd r + 1) (fst r) | _ \<Rightarrow> [])"
  by (subst scan_visits.simps) simp

lemma scan_visits_done: "\<not> i < length (rels sec) \<Longrightarrow> scan_visits sec i st = []"
  by (subst scan_visits.simps) simp

lemma trailing_tls_step:
  "scan_reloc sec i st = Ok (st', i') \<Longrightarrow> trailing_tls sec st' = trailing_tls sec st"
  by (simp add: trailing_tls_def scan_reloc_resolved)

lemma scan_reloc_OutOfBounds_trailing:
  assumes "i < length (rels sec)"
  shows "scan_reloc sec i st = OutOfBounds \<longleftrightarrow> i = length (rels sec) - 1 \<and> trailing_tls sec st"
proof -
  have "length (rels sec) \<le> i + 1 \<longleftrightarrow> i = length (rels sec) - 1"
    using assms by auto
  moreover have "rels sec \<noteq> []"
    using assms by auto
  moreover have "i = length (rels sec) - 1 \<Longrightarrow> rels sec ! i = last (rels sec)"
    using \<open>rels sec \<noteq> []\<close> by (simp add: last_conv_nth)
  ultimately show ?thesis
    unfolding scan_reloc_OutOfBounds trailing_tls_def by auto
qed

lemma scan_loop_OutOfBounds:
  "scan_loop sec i st = OutOfBounds \<longleftrightarrow>
     length (rels sec) - 1 \<in> set (scan_visits sec i st) \<and> trailing_tls sec st"
proof (induction sec i st rule: scan_loop.induct)
  case (1 sec i st)
  show ?case
  proof (cases "i < length (rels sec)")
    case False
    then show ?thesis
      by (simp add: scan_loop_done scan_visits_done)
  next
    case lt: True
    note oob = scan_reloc_OutOfBounds_trailing [OF lt, of st]
    show ?thesis
    proof (cases "scan_reloc sec i st")
      case (Ok r)
      have IH: "scan_loop sec (snd r + 1) (fst r) = OutOfBounds \<longleftrightarrow>
          length (rels sec) - 1 \<in> set (scan_visits sec (snd r + 1) (fst r)) \<and>
          trailing_tls sec (fst r)"
        using "1.IH" [OF lt Ok] .
      have r: "scan_reloc sec i st = Ok (fst r, snd r)"
        using Ok by simp
      have tt: "trailing_tls sec (fst r) = trailing_tls sec st"
        using r by (rule trailing_tls_step)
      have notlast: "\<not> (i = length (rels sec) - 1 \<and> trailing_tls sec st)"
        using oob Ok by simp
      have "i \<le> snd r"
        using r by (rule scan_reloc_index)
      then have later: "i = length (rels sec) - 1 \<Longrightarrow> scan_visits sec (snd r + 1) (fst r) = []"
        using lt by (simp add: scan_visits_done)
      have "scan_loop sec i st = scan_loop sec (snd r + 1) (fst r)"
        using lt r by (rule scan_loop_step)
      moreover have "scan_visits sec i st = i # scan_visits sec (snd r + 1) (fst r)"
        using lt Ok by (simp add: scan_visits_step)
      ultimately show ?thesis
        using IH tt notlast later by auto
    next
      case (Fatal e)
      then have "scan_loop sec i st = Fatal e" "scan_visits sec i st = [i]"
        using lt by (simp_all add: scan_loop.simps [of sec i st] scan_visits_step)
      with oob Fatal show ?thesis by auto
    next
      case AssertionFailed
      then have "scan_loop sec i st = AssertionFailed" "scan_visits sec i st = [i]"
        using lt by (simp_all add: scan_loop.simps [of sec i st] scan_visits_step)
      with oob AssertionFailed show ?thesis by auto
    next
      case OutOfBounds
      then have "scan_loop sec i st = OutOfBounds" "scan_visits sec i st = [i]"
        using lt by (simp_all add: scan_loop.simps [of sec i st] scan_visits_step)
      with oob OutOfBounds show ?thesis by auto
    qed
  qed
qed

text \<open>
  Claim C10, amended.  The only access to \<open>rels\<close> beyond the loop's own
  \<open>rels[i]\<close> is \<open>rels[i + 1]\<close> in the assertion of the TLSGD and TLSLD
  arms (the skip \<open>i++\<close> reads nothing).  A scan reads past the end of
  \<open>rels\<close> exactly when the section is allocated, the loop reaches the last
  relocation, and that relocation is a TLSGD or TLSLD whose symbol is
  resolved.  In particular every access is in bounds when no TLSGD or TLSLD is
  last; the converse does not hold.
\<close>

theorem scan_relocations_bounds:
  "(scan_relocations sec st = OutOfBounds \<longleftrightarrow>
      sh_flags (shdr sec) AND SHF_ALLOC \<noteq> 0 \<and>
      length (rels sec) - 1 \<in> set (scan_visits sec 0 st) \<and> trailing_tls sec st) \<and>
   (rels sec = [] \<or>
    (r_type (last (rels sec)) \<noteq> R_X86_64_TLSGD \<and> r_type (last (rels sec)) \<noteq> R_X86_64_TLSLD) \<longrightarrow>
      scan_relocations sec st \<noteq> OutOfBounds)"
  by (auto simp add: scan_relocations_def scan_loop_OutOfBounds trailing_tls_def)

theorem scan_relocations_bounds_witness:
  "sh_flags (shdr example_trailing_resolved_isec) AND SHF_ALLOC \<noteq> 0 \<and>
   length (rels example_trailing_resolved_isec) - 1
     \<in> set (scan_visits example_trailing_resolved_isec 0 example_state) \<and>
   trailing_tls example_trailing_resolved_isec example_state \<and>
   scan_relocations example_trailing_resolved_isec example_state = OutOfBounds \<and>
   r_type (last (rels example_plain_isec)) \<noteq> R_X86_64_TLSGD \<and>
   r_type (last (rels example_plain_isec)) \<noteq> R_X86_64_TLSLD \<and>
   scan_relocations example_plain_isec example_state \<noteq> OutOfBounds"
proof -
  have a: "sh_flags (shdr example_trailing_resolved_isec) AND SHF_ALLOC \<noteq> 0"
    by (simp add: example_defs SHF_ALLOC_def)
  have v: "length (rels example_trailing_resolved_isec) - 1
     \<in> set (scan_visits example_trailing_resolved_isec 0 example_state)"
    by (simp add: scan_visits.simps scan_reloc_def Let_def example_defs assert_next_plt32_def
        direct_family_def got_family_def R_defs STT_OBJECT_def)
  have t: "trailing_tls example_trailing_resolved_isec example_state"
    by (simp add: trailing_tls_def resolved_def reloc_sym_def example_defs)
  have l: "r_type (last (rels example_plain_isec)) \<noteq> R_X86_64_TLSGD"
    "r_type (last (rels example_plain_isec)) \<noteq> R_X86_64_TLSLD"
    by (simp_all add: example_defs R_defs)
  from scan_relocations_bounds [of example_trailing_resolved_isec example_state] a v t
  have "scan_relocations example_trailing_resolved_isec example_state = OutOfBounds"
    by blast
  moreover from scan_relocations_bounds [of example_plain_isec example_state] l
  have "scan_relocations example_plain_isec example_state \<noteq> OutOfBounds"
    by blast
  ultimately show ?thesis
    using a v t l by blast
qed

text \<open>
  The equivalence of the claim fails: the section below is allocated and its
  last relocation is a TLSGD, yet the scan makes no access out of bounds and
  ends normally, because the relocation's symbol has no file and the loop
  leaves the iteration before the \<open>switch\<close>.
\<close>

theorem scan_relocations_bounds_counterexample:
  "sh_flags (shdr example_trailing_isec) AND SHF_ALLOC \<noteq> 0 \<and>
   r_type (last (rels example_trailing_isec)) = R_X86_64_TLSGD \<and>
   scan_relocations example_trailing_isec example_state =
     Ok (example_state\<lparr>has_error := True\<rparr>)"
  by (simp add: scan_relocations_def SHF_ALLOC_def scan_loop.simps scan_reloc_def Let_def
      example_defs)

subsection \<open>Applying relocations\<close>

lemma copy_buf_loop_step:
  assumes "i < length (rels sec)" "apply_reloc out hp sec i buf = Inr (buf', i')"
  shows "copy_buf_loop out hp sec i buf = copy_buf_loop out hp sec (i' + 1) buf'"
  using assms by (subst copy_buf_loop.simps) simp

lemma copy_buf_loop_error:
  assumes "i < length (rels sec)" "apply_reloc out hp sec i buf = Inl e"
  shows "copy_buf_loop out hp sec i buf = Inl e"
  using assms by (subst copy_buf_loop.simps) simp

lemma copy_buf_loop_done:
  "\<not> i < length (rels sec) \<Longrightarrow> copy_buf_loop out hp sec i buf = Inr buf"
  by (subst copy_buf_loop.simps) simp

lemma apply_reloc_table:
  assumes "sym_file (hp (reloc_sym sec i)) \<noteq> None"
    and "spec_table out (hp (reloc_sym sec i)) (rel_pieces sec ! i) (rels sec ! i)
           (reloc_P out sec i) = Some w"
  shows "apply_reloc out hp sec i buf = Inr (do_write buf (reloc_loc out sec i) w, i)"
  using assms
  unfolding spec_table_def apply_reloc_def reloc_sym_def reloc_P_def reloc_loc_def
    spec_S_def spec_A_def Let_def
  by (auto simp add: R_defs split: if_splits option.splits)

lemma apply_reloc_unknown:
  assumes "sym_file (hp (reloc_sym sec i)) \<noteq> None"
    and "spec_table out (hp (reloc_sym sec i)) (rel_pieces sec ! i) (rels sec ! i)
           (reloc_P out sec i) = None"
    and "r_type (rels sec ! i) \<noteq> R_X86_64_TLSGD" "r_type (rels sec ! i) \<noteq> R_X86_64_TLSLD"
  shows "apply_reloc out hp sec i buf =
           Inl (UnknownRelocation (to_string sec) (r_type (rels sec ! i)))"
  using assms
  unfolding spec_table_def apply_reloc_def reloc_sym_def reloc_P_def reloc_loc_def
    spec_S_def spec_A_def Let_def
  by (auto simp add: R_defs split: if_splits option.splits)

text \<open>
  Claim C1, amended.  The loop of \<open>copy_buf\<close> does not apply every
  relocation: the one right after a relaxed TLSGD or TLSLD is skipped, and
  TLSGD and TLSLD themselves are handled outside the table.  In a section that
  is not \<open>SHT_NOBITS\<close> and not empty, the section's bytes are copied and the
  loop starts at the first relocation; when the loop reaches a relocation
  whose symbol has a defining file and whose type is in the table, it writes at
  \<open>base + r_offset\<close> exactly the value and width of the table (nothing for
  NONE) and goes on with the next relocation; a type that is neither in the
  table nor TLSGD nor TLSLD ends the run in the error.
\<close>

theorem copy_buf_table:
  assumes "i < length (rels sec)" and "sym_file (hp (reloc_sym sec i)) \<noteq> None"
  shows
    "(\<forall>w. spec_table out (hp (reloc_sym sec i)) (rel_pieces sec ! i) (rels sec ! i)
            (reloc_P out sec i) = Some w \<longrightarrow>
        apply_reloc out hp sec i buf = Inr (do_write buf (reloc_loc out sec i) w, i) \<and>
        copy_buf_loop out hp sec i buf =
          copy_buf_loop out hp sec (i + 1) (do_write buf (reloc_loc out sec i) w)) \<and>
     (spec_table out (hp (reloc_sym sec i)) (rel_pieces sec ! i) (rels sec ! i)
        (reloc_P out sec i) = None \<and>
      r_type (rels sec ! i) \<noteq> R_X86_64_TLSGD \<and> r_type (rels sec ! i) \<noteq> R_X86_64_TLSLD \<longrightarrow>
        apply_reloc out hp sec i buf =
          Inl (UnknownRelocation (to_string sec) (r_type (rels sec ! i))) \<and>
        copy_buf_loop out hp sec i buf =
          Inl (UnknownRelocation (to_string sec) (r_type (rels sec ! i)))) \<and>
     (sh_type (shdr sec) \<noteq> SHT_NOBITS \<and> sh_size (shdr sec) \<noteq> 0 \<longrightarrow>
        copy_buf out hp sec buf0 =
          copy_buf_loop out hp sec 0
            (memcpy buf0 (sh_offset (output_section_shdr out) + offset sec) (contents sec)))"
proof (intro conjI allI impI)
  fix w
  assume w: "spec_table out (hp (reloc_sym sec i)) (rel_pieces sec ! i) (rels sec ! i)
            (reloc_P out sec i) = Some w"
  show a: "apply_reloc out hp sec i buf = Inr (do_write buf (reloc_loc out sec i) w, i)"
    using assms(2) w by (rule apply_reloc_table)
  show "copy_buf_loop out hp sec i buf =
          copy_buf_loop out hp sec (i + 1) (do_write buf (reloc_loc out sec i) w)"
    using assms(1) a by (rule copy_buf_loop_step)
next
  assume n: "spec_table out (hp (reloc_sym sec i)) (rel_pieces sec ! i) (rels sec ! i)
        (reloc_P out sec i) = None \<and>
      r_type (rels sec ! i) \<noteq> R_X86_64_TLSGD \<and> r_type (rels sec ! i) \<noteq> R_X86_64_TLSLD"
  show a: "apply_reloc out hp sec i buf =
          Inl (UnknownRelocation (to_string sec) (r_type (rels sec ! i)))"
    using assms(2) n by (simp add: apply_reloc_unknown)
  show "copy_buf_loop out hp sec i buf =
          Inl (UnknownRelocation (to_string sec) (r_type (rels sec ! i)))"
    using assms(1) a by (rule copy_buf_loop_error)
next
  assume "sh_type (shdr sec) \<noteq> SHT_NOBITS \<and> sh_size (shdr sec) \<noteq> 0"
  then show "copy_buf out hp sec buf0 =
          copy_buf_loop out hp sec 0
            (memcpy buf0 (sh_offset (output_section_shdr out) + offset sec) (contents sec))"
    by (simp add: copy_buf_def)
qed

theorem copy_buf_table_witness:
  "sym_file (example_heap (reloc_sym example_plain_isec 0)) \<noteq> None \<and>
   r_type (rels example_plain_isec ! 0) = R_X86_64_PC32 \<and>
   reloc_loc example_out example_plain_isec 0 = 0x1020 \<and>
   spec_table example_out (example_heap (reloc_sym example_plain_isec 0))
     (rel_pieces example_plain_isec ! 0) (rels example_plain_isec ! 0)
     (reloc_P example_out example_plain_isec 0) = Some (W32 0xFFBFEFDC) \<and>
   apply_reloc example_out example_heap example_plain_isec 0 zero_mem =
     Inr (store_u32 zero_mem 0x1020 0xFFBFEFDC, 0)"
proof -
  have i: "0 < length (rels example_plain_isec)"
    by (simp add: example_defs)
  have f: "sym_file (example_heap (reloc_sym example_plain_isec 0)) \<noteq> None"
    by (simp add: example_defs reloc_sym_def)
  have t: "r_type (rels example_plain_isec ! 0) = R_X86_64_PC32"
    by (simp add: example_defs)
  have l: "reloc_loc example_out example_plain_isec 0 = 0x1020"
    by (simp add: example_defs reloc_loc_def)
  have w: "spec_table example_out (example_heap (reloc_sym example_plain_isec 0))
     (rel_pieces example_plain_isec ! 0) (rels example_plain_isec ! 0)
     (reloc_P example_out example_plain_isec 0) = Some (W32 0xFFBFEFDC)"
    by (simp add: spec_table_def spec_S_def spec_A_def reloc_P_def reloc_sym_def Let_def
        example_defs R_defs)
  from copy_buf_table [where i = 0 and sec = example_plain_isec and hp = example_heap
      and out = example_out and buf = zero_mem, OF i f] w l
  have "apply_reloc example_out example_heap example_plain_isec 0 zero_mem =
     Inr (store_u32 zero_mem 0x1020 0xFFBFEFDC, 0)"
    by simp
  with f t l w show ?thesis
    by blast
qed

text \<open>
  The claim as stated fails on the paired relocation.  The section below is
  not \<open>SHT_NOBITS\<close> and not empty; its relocation 1 is a PLT32 whose symbol
  has a defining file, and the table gives the 32-bit value \<open>0xFFBFEFD0\<close>
  (bytes \<open>D0 EF BF FF\<close>) for its location \<open>0x102c\<close>.  After \<open>copy_buf\<close>
  the location holds \<open>F0 FF FF FF\<close>, the offset patched in by the relaxed
  TLSGD at index 0: relocation 1 was skipped.
\<close>

theorem copy_buf_table_counterexample:
  "sh_type (shdr example_gd_isec) \<noteq> SHT_NOBITS \<and>
   sh_size (shdr example_gd_isec) \<noteq> 0 \<and>
   r_type (rels example_gd_isec ! 1) = R_X86_64_PLT32 \<and>
   sym_file (example_heap (reloc_sym example_gd_isec 1)) \<noteq> None \<and>
   reloc_loc example_out example_gd_isec 1 = 0x102c \<and>
   spec_table example_out (example_heap (reloc_sym example_gd_isec 1))
     (rel_pieces example_gd_isec ! 1) (rels example_gd_isec ! 1)
     (reloc_P example_out example_gd_isec 1) = Some (W32 0xFFBFEFD0) \<and>
   load_bytes (do_write zero_mem 0x102c (W32 0xFFBFEFD0)) 0x102c 4 = [0xD0, 0xEF, 0xBF, 0xFF] \<and>
   result_bytes (copy_buf example_out example_heap example_gd_isec zero_mem) 0x102c 4 =
     Some [0xF0, 0xFF, 0xFF, 0xFF]"
  by (simp add: result_bytes_def copy_buf_def copy_buf_loop.simps apply_reloc_def Let_def
      example_defs R_defs SHT_NOBITS_def load_bytes_def store_u32_def insn_gd_def upt_rec
      spec_table_def spec_S_def spec_A_def reloc_P_def reloc_loc_def reloc_sym_def)

text \<open>
  Claim C2, amended.  When the loop of \<open>copy_buf\<close> reaches a TLSGD relocation
  whose symbol has a defining file: if the symbol's \<open>tlsgd_idx\<close> is the
  sentinel \<open>-1\<close>, the 16 bytes from \<open>loc - 4\<close> are overwritten with
  \<open>64 48 8b 04 25 00 00 00 00 48 8d 80 00 00 00 00\<close>, then the \<open>u32\<close>
  \<open>S - tls_end + A + 4\<close> is written at \<open>loc + 8\<close>, and the loop goes on
  two relocations further, skipping the paired one; otherwise the \<open>u32\<close>
  \<open>tlsgd_addr + A - P\<close> is written at \<open>loc\<close> and the loop goes on with the
  next relocation.  A TLSGD whose symbol has no file is skipped like any other
  relocation.
\<close>

theorem copy_buf_tlsgd:
  assumes "i < length (rels sec)" and "sym_file (hp (reloc_sym sec i)) \<noteq> None"
    and "r_type (rels sec ! i) = R_X86_64_TLSGD"
  shows
    "insn_gd = [0x64, 0x48, 0x8b, 0x04, 0x25, 0, 0, 0, 0, 0x48, 0x8d, 0x80, 0, 0, 0, 0] \<and>
     (tlsgd_idx (hp (reloc_sym sec i)) = - 1 \<longrightarrow>
        apply_reloc out hp sec i buf =
          Inr (store_u32 (memcpy buf (reloc_loc out sec i - 4) insn_gd) (reloc_loc out sec i + 8)
                 (ucast (spec_S (hp (reloc_sym sec i)) (rel_pieces sec ! i) - tls_end out
                          + spec_A (rel_pieces sec ! i) (rels sec ! i) + 4)), i + 1) \<and>
        copy_buf_loop out hp sec i buf =
          copy_buf_loop out hp sec (i + 2)
            (store_u32 (memcpy buf (reloc_loc out sec i - 4) insn_gd) (reloc_loc out sec i + 8)
               (ucast (spec_S (hp (reloc_sym sec i)) (rel_pieces sec ! i) - tls_end out
                        + spec_A (rel_pieces sec ! i) (rels sec ! i) + 4)))) \<and>
     (tlsgd_idx (hp (reloc_sym sec i)) \<noteq> - 1 \<longrightarrow>
        apply_reloc out hp sec i buf =
          Inr (store_u32 buf (reloc_loc out sec i)
                 (ucast (get_tlsgd_addr (hp (reloc_sym sec i))
                          + spec_A (rel_pieces sec ! i) (rels sec ! i) - reloc_P out sec i)), i) \<and>
        copy_buf_loop out hp sec i buf =
          copy_buf_loop out hp sec (i + 1)
            (store_u32 buf (reloc_loc out sec i)
               (ucast (get_tlsgd_addr (hp (reloc_sym sec i))
                        + spec_A (rel_pieces sec ! i) (rels sec ! i) - reloc_P out sec i))))"
proof -
  have relaxed: "apply_reloc out hp sec i buf =
          Inr (store_u32 (memcpy buf (reloc_loc out sec i - 4) insn_gd) (reloc_loc out sec i + 8)
                 (ucast (spec_S (hp (reloc_sym sec i)) (rel_pieces sec ! i) - tls_end out
                          + spec_A (rel_pieces sec ! i) (rels sec ! i) + 4)), i + 1)"
    if "tlsgd_idx (hp (reloc_sym sec i)) = - 1"
    using assms(2,3) that
    unfolding apply_reloc_def reloc_sym_def reloc_P_def reloc_loc_def spec_S_def spec_A_def Let_def
    by (auto simp add: R_defs split: option.splits)
  have kept: "apply_reloc out hp sec i buf =
          Inr (store_u32 buf (reloc_loc out sec i)
                 (ucast (get_tlsgd_addr (hp (reloc_sym sec i))
                          + spec_A (rel_pieces sec ! i) (rels sec ! i) - reloc_P out sec i)), i)"
    if "tlsgd_idx (hp (reloc_sym sec i)) \<noteq> - 1"
    using assms(2,3) that
    unfolding apply_reloc_def reloc_sym_def reloc_P_def reloc_loc_def spec_S_def spec_A_def Let_def
    by (auto simp add: R_defs split: option.splits)
  show ?thesis
    using relaxed kept copy_buf_loop_step [where i = i and sec = sec and out = out and hp = hp
        and buf = buf, OF assms(1)]
    by (auto simp add: insn_gd_def)
qed

theorem copy_buf_tlsgd_witness:
  "sym_file (example_heap (reloc_sym example_gd_isec 0)) \<noteq> None \<and>
   r_type (rels example_gd_isec ! 0) = R_X86_64_TLSGD \<and>
   tlsgd_idx (example_heap (reloc_sym example_gd_isec 0)) = - 1 \<and>
   reloc_loc example_out example_gd_isec 0 = 0x1024 \<and>
   apply_reloc example_out example_heap example_gd_isec 0 zero_mem =
     Inr (store_u32 (memcpy zero_mem 0x1020 insn_gd) 0x102c 0xFFFFFFF0, 1) \<and>
   load_bytes (store_u32 (memcpy zero_mem 0x1020 insn_gd) 0x102c 0xFFFFFFF0) 0x1020 16 =
     [0x64, 0x48, 0x8b, 0x04, 0x25, 0, 0, 0, 0, 0x48, 0x8d, 0x80, 0xF0, 0xFF, 0xFF, 0xFF]"
proof -
  have i: "0 < length (rels example_gd_isec)"
    by (simp add: example_defs)
  have f: "sym_file (example_heap (reloc_sym example_gd_isec 0)) \<noteq> None"
    by (simp add: example_defs reloc_sym_def)
  have t: "r_type (rels example_gd_isec ! 0) = R_X86_64_TLSGD"
    by (simp add: example_defs)
  have x: "tlsgd_idx (example_heap (reloc_sym example_gd_isec 0)) = - 1"
    by (simp add: example_defs reloc_sym_def)
  have l: "reloc_loc example_out example_gd_isec 0 = 0x1024"
    by (simp add: example_defs reloc_loc_def)
  have v: "(ucast (spec_S (example_heap (reloc_sym example_gd_isec 0))
                    (rel_pieces example_gd_isec ! 0) - tls_end example_out
                  + spec_A (rel_pieces example_gd_isec ! 0) (rels example_gd_isec ! 0) + 4) :: u32)
           = 0xFFFFFFF0"
    by (simp add: example_defs reloc_sym_def spec_S_def spec_A_def)
  have b: "load_bytes (store_u32 (memcpy zero_mem 0x1020 insn_gd) 0x102c 0xFFFFFFF0) 0x1020 16 =
     [0x64, 0x48, 0x8b, 0x04, 0x25, 0, 0, 0, 0, 0x48, 0x8d, 0x80, 0xF0, 0xFF, 0xFF, 0xFF]"
    by (simp add: load_bytes_def store_u32_def insn_gd_def zero_mem_def upt_rec)
  from copy_buf_tlsgd [where i = 0 and sec = example_gd_isec and hp = example_heap
      and out = example_out and buf = zero_mem, OF i f t] x l v
  have "apply_reloc example_out example_heap example_gd_isec 0 zero_mem =
     Inr (store_u32 (memcpy zero_mem 0x1020 insn_gd) 0x102c 0xFFFFFFF0, 1)"
    by simp
  with f t x l b show ?thesis
    by blast
qed

text \<open>
  The claim as stated fails for a TLSGD whose symbol has no defining file.  In
  the section below relocation 0 is such a TLSGD and the symbol's
  \<open>tlsgd_idx\<close> is the sentinel; \<open>loc - 4\<close> is \<open>0x1020\<close>.  After
  \<open>copy_buf\<close> the 16 bytes there are the section's own bytes, not the
  instruction sequence, and their last four are the value of the following
  PLT32, which was applied, not skipped.
\<close>

theorem copy_buf_tlsgd_counterexample:
  "sh_type (shdr example_gd_undef_isec) \<noteq> SHT_NOBITS \<and>
   sh_size (shdr example_gd_undef_isec) \<noteq> 0 \<and>
   r_type (rels example_gd_undef_isec ! 0) = R_X86_64_TLSGD \<and>
   tlsgd_idx (example_heap (reloc_sym example_gd_undef_isec 0)) = - 1 \<and>
   reloc_loc example_out example_gd_undef_isec 0 - 4 = 0x1020 \<and>
   result_bytes (copy_buf example_out example_heap example_gd_undef_isec zero_mem) 0x1020 16 =
     Some [0x66, 0x48, 0x8d, 0x3d, 0, 0, 0, 0, 0x66, 0x66, 0x48, 0xe8, 0xD0, 0xEF, 0xBF, 0xFF]"
  by (simp add: result_bytes_def copy_buf_def copy_buf_loop.simps apply_reloc_def Let_def
      example_defs R_defs SHT_NOBITS_def load_bytes_def store_u32_def upt_rec
      reloc_loc_def reloc_sym_def)

subsection \<open>Relocations against unresolved symbols\<close>

lemma same_linkage_refl [simp]: "same_linkage h h"
  by (simp add: same_linkage_def)

lemma same_linkage_sym: "same_linkage a b \<Longrightarrow> same_linkage b a"
  by (simp add: same_linkage_def)

lemma same_linkage_trans: "same_linkage a b \<Longrightarrow> same_linkage b c \<Longrightarrow> same_linkage a c"
  by (simp add: same_linkage_def)

lemma same_linkage_resolved: "same_linkage a b \<Longrightarrow> resolved (a p) = resolved (b p)"
  by (simp add: same_linkage_def resolved_def)

lemma scan_reloc_linkage:
  assumes "scan_reloc sec i st = Ok (st', i')"
  shows "same_linkage (heap st) (heap st')"
  using assms
  by (auto simp add: scan_reloc_def Let_def same_linkage_def assert_next_plt32_def
      split: if_splits)

lemma scan_reloc_has_error:
  assumes "scan_reloc sec i st = Ok (st', i')" "has_error st"
  shows "has_error st'"
  using assms
  by (auto simp add: scan_reloc_def Let_def assert_next_plt32_def split: if_splits)

lemma scan_reloc_unresolved:
  assumes "\<not> resolved (heap st (reloc_sym sec i))"
  shows "scan_reloc sec i st = Ok (st\<lparr>has_error := True\<rparr>, i)"
  using assms by (auto simp add: scan_reloc_def Let_def resolved_def reloc_sym_def)

lemma scan_reloc_same_index:
  assumes "same_linkage (heap s1) (heap s2)" "scan_reloc sec i s1 = Ok (s1', i1)"
  shows "\<exists>s2'. scan_reloc sec i s2 = Ok (s2', i1)"
proof -
  let ?p = "symbols sec ! unat (r_sym (rels sec ! i))"
  let ?t = "r_type (rels sec ! i)"
  from assms(1) have eq: "sym_file (heap s2 ?p) = sym_file (heap s1 ?p)"
    "is_placeholder (heap s2 ?p) = is_placeholder (heap s1 ?p)"
    "is_imported (heap s2 ?p) = is_imported (heap s1 ?p)"
    "type (heap s2 ?p) = type (heap s1 ?p)"
    by (simp_all add: same_linkage_def)
  show ?thesis
  proof (cases "sym_file (heap s1 ?p) = None \<or> is_placeholder (heap s1 ?p)")
    case True
    with assms(2) have "i1 = i"
      by (auto simp add: scan_reloc_def Let_def)
    moreover from True eq have "scan_reloc sec i s2 = Ok (s2\<lparr>has_error := True\<rparr>, i)"
      by (auto simp add: scan_reloc_def Let_def)
    ultimately show ?thesis
      by simp
  next
    case False
    then have res: "sym_file (heap s1 ?p) \<noteq> None" "\<not> is_placeholder (heap s1 ?p)"
      by simp_all
    consider (none) "?t = R_X86_64_NONE"
      | (direct) "?t \<noteq> R_X86_64_NONE" "direct_family ?t"
      | (got) "?t \<noteq> R_X86_64_NONE" "\<not> direct_family ?t" "got_family ?t"
      | (plt) "?t = R_X86_64_PLT32"
      | (gd) "?t = R_X86_64_TLSGD"
      | (ld) "?t = R_X86_64_TLSLD"
      | (other) "?t \<noteq> R_X86_64_NONE" "\<not> direct_family ?t" "\<not> got_family ?t"
          "?t \<noteq> R_X86_64_PLT32" "?t \<noteq> R_X86_64_TLSGD" "?t \<noteq> R_X86_64_TLSLD"
      by blast
    then show ?thesis
    proof cases
      case none
      with assms(2) res eq show ?thesis
        by (simp add: scan_reloc_def Let_def)
    next
      case direct
      with assms(2) res eq show ?thesis
        by (simp add: scan_reloc_def Let_def split: if_splits)
    next
      case got
      with assms(2) res eq show ?thesis
        by (simp add: scan_reloc_def Let_def)
    next
      case plt
      with assms(2) res eq show ?thesis
        by (simp add: scan_reloc_def Let_def direct_family_def got_family_def R_defs
            split: if_splits)
    next
      case gd
      with assms(2) res eq show ?thesis
        by (simp add: scan_reloc_def Let_def direct_family_def got_family_def R_defs
            assert_next_plt32_def split: if_splits)
    next
      case ld
      with assms(2) res eq show ?thesis
        by (simp add: scan_reloc_def Let_def direct_family_def got_family_def R_defs
            assert_next_plt32_def split: if_splits)
    next
      case other
      with assms(2) res eq show ?thesis
        by (simp add: scan_reloc_def Let_def split: if_splits)
    qed
  qed
qed

lemma scan_visits_linkage:
  "same_linkage (heap s1) (heap s2) \<Longrightarrow> scan_visits sec i s1 = scan_visits sec i s2"
proof (induction sec i s1 arbitrary: s2 rule: scan_visits.induct)
  case (1 isec i st)
  show ?case
  proof (cases "i < length (rels isec)")
    case False
    then show ?thesis
      by (simp add: scan_visits_done)
  next
    case True
    show ?thesis
    proof (cases "scan_reloc isec i st")
      case (Ok r)
      obtain st' i' where r: "r = (st', i')"
        by (cases r)
      from scan_reloc_same_index [OF "1.prems" Ok [unfolded r]]
      obtain s2' where s2': "scan_reloc isec i s2 = Ok (s2', i')"
        by blast
      have "same_linkage (heap st') (heap s2')"
        using scan_reloc_linkage [OF Ok [unfolded r]] scan_reloc_linkage [OF s2'] "1.prems"
        by (blast intro: same_linkage_sym same_linkage_trans)
      with "1.IH" [OF True Ok, of s2'] r
      have "scan_visits isec (i' + 1) st' = scan_visits isec (i' + 1) s2'"
        by simp
      with True Ok r s2' show ?thesis
        by (simp add: scan_visits_step)
    next
      case (Fatal e)
      have "\<And>r. scan_reloc isec i s2 \<noteq> Ok r"
      proof
        fix r assume "scan_reloc isec i s2 = Ok r"
        then have "scan_reloc isec i s2 = Ok (fst r, snd r)"
          by simp
        from scan_reloc_same_index [OF same_linkage_sym [OF "1.prems"] this] Fatal
        show False
          by simp
      qed
      with True Fatal show ?thesis
        by (simp add: scan_visits_step split: outcome.splits)
    next
      case AssertionFailed
      have "\<And>r. scan_reloc isec i s2 \<noteq> Ok r"
      proof
        fix r assume "scan_reloc isec i s2 = Ok r"
        then have "scan_reloc isec i s2 = Ok (fst r, snd r)"
          by simp
        from scan_reloc_same_index [OF same_linkage_sym [OF "1.prems"] this] AssertionFailed
        show False
          by simp
      qed
      with True AssertionFailed show ?thesis
        by (simp add: scan_visits_step split: outcome.splits)
    next
      case OutOfBounds
      have "\<And>r. scan_reloc isec i s2 \<noteq> Ok r"
      proof
        fix r assume "scan_reloc isec i s2 = Ok r"
        then have "scan_reloc isec i s2 = Ok (fst r, snd r)"
          by simp
        from scan_reloc_same_index [OF same_linkage_sym [OF "1.prems"] this] OutOfBounds
        show False
          by simp
      qed
      with True OutOfBounds show ?thesis
        by (simp add: scan_visits_step split: outcome.splits)
    qed
  qed
qed

lemma scan_loop_keeps:
  "scan_loop sec i st = Ok st' \<Longrightarrow>
     same_linkage (heap st) (heap st') \<and> (has_error st \<longrightarrow> has_error st')"
proof (induction sec i st rule: scan_loop.induct)
  case (1 isec i st)
  show ?case
  proof (cases "i < length (rels isec)")
    case False
    with "1.prems" show ?thesis
      by (simp add: scan_loop_done)
  next
    case True
    from "1.prems" True obtain r where r: "scan_reloc isec i st = Ok r"
      by (subst (asm) scan_loop.simps) (simp split: outcome.splits)
    then have r': "scan_reloc isec i st = Ok (fst r, snd r)"
      by simp
    from "1.prems" True r have "scan_loop isec (snd r + 1) (fst r) = Ok st'"
      by (subst (asm) scan_loop.simps) simp
    from "1.IH" [OF True r this] scan_reloc_linkage [OF r'] scan_reloc_has_error [OF r']
    show ?thesis
      by (blast intro: same_linkage_trans)
  qed
qed

lemma scan_loop_records:
  "scan_loop sec j st = Ok st' \<Longrightarrow> i \<in> set (scan_visits sec j st) \<Longrightarrow>
     \<not> resolved (heap st (reloc_sym sec i)) \<Longrightarrow> has_error st'"
proof (induction sec j st rule: scan_loop.induct)
  case (1 isec j st)
  show ?case
  proof (cases "j < length (rels isec)")
    case False
    with "1.prems"(2) show ?thesis
      by (simp add: scan_visits_done)
  next
    case True
    from "1.prems"(1) True obtain r where r: "scan_reloc isec j st = Ok r"
      by (subst (asm) scan_loop.simps) (simp split: outcome.splits)
    then have r': "scan_reloc isec j st = Ok (fst r, snd r)"
      by simp
    from "1.prems"(1) True r have rest: "scan_loop isec (snd r + 1) (fst r) = Ok st'"
      by (subst (asm) scan_loop.simps) simp
    show ?thesis
    proof (cases "i = j")
      case True
      with "1.prems"(3) have "scan_reloc isec j st = Ok (st\<lparr>has_error := True\<rparr>, j)"
        by (simp add: scan_reloc_unresolved)
      with r have "fst r = st\<lparr>has_error := True\<rparr>"
        by auto
      then have "has_error (fst r)"
        by simp
      with scan_loop_keeps [OF rest] show ?thesis
        by simp
    next
      case False
      with "1.prems"(2) \<open>j < length (rels isec)\<close> r
      have "i \<in> set (scan_visits isec (snd r + 1) (fst r))"
        by (simp add: scan_visits_step)
      moreover from "1.prems"(3) scan_reloc_resolved [OF r']
      have "\<not> resolved (heap (fst r) (reloc_sym isec i))"
        by simp
      ultimately show ?thesis
        using "1.IH" [OF \<open>j < length (rels isec)\<close> r rest] by simp
    qed
  qed
qed

lemma scan_relocations_keeps:
  "scan_relocations sec st = Ok st' \<Longrightarrow>
     same_linkage (heap st) (heap st') \<and> (has_error st \<longrightarrow> has_error st')"
  using scan_loop_keeps [of sec 0 st st']
  by (auto simp add: scan_relocations_def split: if_splits)

lemma scan_relocations_records:
  assumes "scan_relocations sec st = Ok st'" "sh_flags (shdr sec) AND SHF_ALLOC \<noteq> 0"
    "i \<in> set (scan_visits sec 0 st)" "\<not> resolved (heap st (reloc_sym sec i))"
  shows "has_error st'"
  using assms scan_loop_records [of sec 0 st st' i]
  by (simp add: scan_relocations_def)

lemma ObjectFile_scan_keeps:
  "ObjectFile_scan_relocations secs st = Ok st' \<Longrightarrow>
     same_linkage (heap st) (heap st') \<and> (has_error st \<longrightarrow> has_error st')"
proof (induction secs arbitrary: st)
  case Nil
  then show ?case
    by simp
next
  case (Cons sec secs)
  from Cons.prems obtain st1 where st1: "scan_relocations sec st = Ok st1"
    "ObjectFile_scan_relocations secs st1 = Ok st'"
    by (auto split: outcome.splits)
  from scan_relocations_keeps [OF st1(1)] Cons.IH [OF st1(2)] show ?case
    by (blast intro: same_linkage_trans)
qed

lemma ObjectFile_scan_records:
  assumes "ObjectFile_scan_relocations secs st = Ok st'" "sec \<in> set secs"
    "sh_flags (shdr sec) AND SHF_ALLOC \<noteq> 0" "same_linkage h0 (heap st)"
    "i \<in> set (scan_visits sec 0 \<lparr>heap = h0, has_error = e\<rparr>)"
    "\<not> resolved (h0 (reloc_sym sec i))"
  shows "has_error st'"
  using assms(1,2,4)
proof (induction secs arbitrary: st)
  case Nil
  then show ?case
    by simp
next
  case (Cons s secs)
  from Cons.prems(1) obtain st1 where st1: "scan_relocations s st = Ok st1"
    "ObjectFile_scan_relocations secs st1 = Ok st'"
    by (auto split: outcome.splits)
  note k = scan_relocations_keeps [OF st1(1)]
  show ?case
  proof (cases "s = sec")
    case True
    have "scan_visits sec 0 st = scan_visits sec 0 \<lparr>heap = h0, has_error = e\<rparr>"
      using scan_visits_linkage [of "\<lparr>heap = h0, has_error = e\<rparr>" st sec 0] Cons.prems(3)
      by simp
    with assms(5) have "i \<in> set (scan_visits sec 0 st)"
      by simp
    moreover from assms(6) same_linkage_resolved [OF Cons.prems(3)]
    have "\<not> resolved (heap st (reloc_sym sec i))"
      by simp
    ultimately have "has_error st1"
      using scan_relocations_records [OF _ assms(3)] st1(1) True by simp
    with ObjectFile_scan_keeps [OF st1(2)] show ?thesis
      by simp
  next
    case False
    with Cons.prems(2) have "sec \<in> set secs"
      by simp
    moreover from k Cons.prems(3) have "same_linkage h0 (heap st1)"
      by (blast intro: same_linkage_trans)
    ultimately show ?thesis
      using Cons.IH [OF st1(2)] by simp
  qed
qed

lemma scan_objs_records:
  assumes "scan_objs objs hp = Ok r" "file \<in> set objs" "sec \<in> set (sections file)"
    "sh_flags (shdr sec) AND SHF_ALLOC \<noteq> 0" "same_linkage h0 hp"
    "i \<in> set (scan_visits sec 0 \<lparr>heap = h0, has_error = e\<rparr>)"
    "\<not> resolved (h0 (reloc_sym sec i))"
  shows "list_ex file_has_error (snd r)"
  using assms(1,2,5)
proof (induction objs arbitrary: hp r)
  case Nil
  then show ?case
    by simp
next
  case (Cons f objs)
  from Cons.prems(1) obtain st r1 where
    st: "ObjectFile_scan_relocations (sections f) \<lparr>heap = hp, has_error = file_has_error f\<rparr>
           = Ok st"
    and r1: "scan_objs objs (heap st) = Ok r1"
    and r: "r = (fst r1, f\<lparr>file_has_error := has_error st\<rparr> # snd r1)"
    by (auto split: outcome.splits)
  show ?case
  proof (cases "f = file")
    case True
    from ObjectFile_scan_records [OF st assms(3) [folded True] assms(4) _ assms(6,7)]
      Cons.prems(3)
    have "has_error st"
      by simp
    with r show ?thesis
      by simp
  next
    case False
    with Cons.prems(2) have "file \<in> set objs"
      by simp
    moreover from ObjectFile_scan_keeps [OF st] Cons.prems(3) have "same_linkage h0 (heap st)"
      by (auto intro: same_linkage_trans)
    ultimately have "list_ex file_has_error (snd r1)"
      using Cons.IH [OF r1] by simp
    with r show ?thesis
      by simp
  qed
qed

text \<open>
  Claim C9, amended.  \<open>scan_relocations\<close> looks at allocated sections only;
  a section without \<open>SHF_ALLOC\<close> is left alone, whatever its relocations
  refer to.  In an allocated section, when the loop reaches a relocation whose
  symbol has no defining file or is a placeholder, it sets \<open>has_error\<close> of
  the file, changes no symbol, and goes on with the next relocation: nothing
  aborts.  The error is deferred until the checkpoint after scanning.  The
  flag, once set, is still set when \<open>scan_relocations\<close> returns; so it is
  set on return whenever the loop of an allocated section has reached such a
  relocation.  In \<open>scan_rels\<close>, started with the symbols of \<open>st\<close>, when
  the scan of all files ends normally and the loop of an allocated section of
  one of the files reaches such a relocation, some file has its flag set when
  the checkpoint is called, and the checkpoint exits.  In \<open>copy_buf\<close>, when
  the loop reaches a relocation whose symbol has no defining file, it writes
  nothing and goes on with the next relocation.
\<close>

theorem unresolved_symbol_deferred:
  assumes "i < length (rels sec)"
  shows
    "(sh_flags (shdr sec) AND SHF_ALLOC = 0 \<longrightarrow> scan_relocations sec st = Ok st) \<and>
     (sh_flags (shdr sec) AND SHF_ALLOC \<noteq> 0 \<longrightarrow> scan_relocations sec st = scan_loop sec 0 st) \<and>
     (\<not> resolved (heap st (reloc_sym sec i)) \<longrightarrow>
        scan_reloc sec i st = Ok (st\<lparr>has_error := True\<rparr>, i) \<and>
        scan_loop sec i st = scan_loop sec (i + 1) (st\<lparr>has_error := True\<rparr>)) \<and>
     (sym_file (hp (reloc_sym sec i)) = None \<longrightarrow>
        apply_reloc out hp sec i buf = Inr (buf, i) \<and>
        copy_buf_loop out hp sec i buf = copy_buf_loop out hp sec (i + 1) buf) \<and>
     (has_error st \<and> scan_relocations sec st = Ok st' \<longrightarrow> has_error st') \<and>
     (sh_flags (shdr sec) AND SHF_ALLOC \<noteq> 0 \<and> i \<in> set (scan_visits sec 0 st) \<and>
      \<not> resolved (heap st (reloc_sym sec i)) \<and> scan_relocations sec st = Ok st' \<longrightarrow>
        has_error st') \<and>
     (f \<in> set objs \<and> sec \<in> set (sections f) \<and>
      sh_flags (shdr sec) AND SHF_ALLOC \<noteq> 0 \<and> i \<in> set (scan_visits sec 0 st) \<and>
      \<not> resolved (heap st (reloc_sym sec i)) \<and> scan_objs objs (heap st) = Ok r \<longrightarrow>
        list_ex file_has_error (snd r) \<and> scan_rels objs (heap st) = Ok Exits)"
proof -
  have s: "scan_reloc sec i st = Ok (st\<lparr>has_error := True\<rparr>, i)"
    if "\<not> resolved (heap st (reloc_sym sec i))"
    using that by (auto simp add: scan_reloc_def Let_def resolved_def reloc_sym_def)
  have c: "apply_reloc out hp sec i buf = Inr (buf, i)"
    if "sym_file (hp (reloc_sym sec i)) = None"
    using that by (simp add: apply_reloc_def Let_def reloc_sym_def)
  have first: "(sh_flags (shdr sec) AND SHF_ALLOC = 0 \<longrightarrow> scan_relocations sec st = Ok st) \<and>
     (sh_flags (shdr sec) AND SHF_ALLOC \<noteq> 0 \<longrightarrow> scan_relocations sec st = scan_loop sec 0 st) \<and>
     (\<not> resolved (heap st (reloc_sym sec i)) \<longrightarrow>
        scan_reloc sec i st = Ok (st\<lparr>has_error := True\<rparr>, i) \<and>
        scan_loop sec i st = scan_loop sec (i + 1) (st\<lparr>has_error := True\<rparr>)) \<and>
     (sym_file (hp (reloc_sym sec i)) = None \<longrightarrow>
        apply_reloc out hp sec i buf = Inr (buf, i) \<and>
        copy_buf_loop out hp sec i buf = copy_buf_loop out hp sec (i + 1) buf)"
    using s c scan_loop_step [where i = i and sec = sec and st = st, OF assms]
      copy_buf_loop_step [where i = i and sec = sec and out = out and hp = hp and buf = buf,
        OF assms]
    by (auto simp add: scan_relocations_def)
  have keeps: "has_error st'" if "has_error st" "scan_relocations sec st = Ok st'"
    using scan_relocations_keeps [OF that(2)] that(1) by simp
  have records: "has_error st'"
    if "sh_flags (shdr sec) AND SHF_ALLOC \<noteq> 0" "i \<in> set (scan_visits sec 0 st)"
      "\<not> resolved (heap st (reloc_sym sec i))" "scan_relocations sec st = Ok st'"
    using scan_relocations_records [OF that(4) that(1) that(2) that(3)] .
  have exits: "list_ex file_has_error (snd r) \<and> scan_rels objs (heap st) = Ok Exits"
    if "f \<in> set objs" "sec \<in> set (sections f)" "sh_flags (shdr sec) AND SHF_ALLOC \<noteq> 0"
      "i \<in> set (scan_visits sec 0 st)" "\<not> resolved (heap st (reloc_sym sec i))"
      "scan_objs objs (heap st) = Ok r"
  proof -
    have "scan_visits sec 0 \<lparr>heap = heap st, has_error = False\<rparr> = scan_visits sec 0 st"
      by (rule scan_visits_linkage) simp
    with that(4) have v: "i \<in> set (scan_visits sec 0 \<lparr>heap = heap st, has_error = False\<rparr>)"
      by simp
    have "list_ex file_has_error (snd r)"
      using scan_objs_records [OF that(6) that(1) that(2) that(3) same_linkage_refl v that(5)] .
    with that(6) show ?thesis
      by (simp add: scan_rels_def checkpoint_def)
  qed
  from first keeps records exits show ?thesis
    by blast
qed

theorem unresolved_symbol_deferred_witness:
  "sh_flags (shdr example_trailing_isec) AND SHF_ALLOC \<noteq> 0 \<and>
   \<not> resolved (heap example_state (reloc_sym example_trailing_isec 0)) \<and>
   sym_file (example_heap (reloc_sym example_trailing_isec 0)) = None \<and>
   scan_reloc example_trailing_isec 0 example_state = Ok (example_state\<lparr>has_error := True\<rparr>, 0) \<and>
   apply_reloc example_out example_heap example_trailing_isec 0 zero_mem = Inr (zero_mem, 0) \<and>
   sh_flags (shdr example_debug_isec) AND SHF_ALLOC = 0 \<and>
   scan_relocations example_debug_isec example_state = Ok example_state \<and>
   scan_visits example_trailing_isec 0 example_state = [0] \<and>
   scan_relocations example_trailing_isec example_state = Ok (example_state\<lparr>has_error := True\<rparr>) \<and>
   example_trailing_isec \<in> set (sections (example_objs ! 1)) \<and>
   (\<exists>r. scan_objs example_objs (heap example_state) = Ok r \<and>
        map file_has_error (snd r) = [False, True]) \<and>
   scan_rels example_objs (heap example_state) = Ok Exits"
proof -
  have i: "0 < length (rels example_trailing_isec)"
    by (simp add: example_defs)
  have j: "0 < length (rels example_debug_isec)"
    by (simp add: example_defs)
  have a: "sh_flags (shdr example_trailing_isec) AND SHF_ALLOC \<noteq> 0"
    by (simp add: example_defs SHF_ALLOC_def)
  have r: "\<not> resolved (heap example_state (reloc_sym example_trailing_isec 0))"
    by (simp add: example_defs resolved_def reloc_sym_def)
  have f: "sym_file (example_heap (reloc_sym example_trailing_isec 0)) = None"
    by (simp add: example_defs reloc_sym_def)
  have n: "sh_flags (shdr example_debug_isec) AND SHF_ALLOC = 0"
    by (simp add: example_defs SHF_ALLOC_def)
  have v: "scan_visits example_trailing_isec 0 example_state = [0]"
    by (simp add: scan_visits.simps scan_reloc_def Let_def example_defs)
  have t: "scan_relocations example_trailing_isec example_state
      = Ok (example_state\<lparr>has_error := True\<rparr>)"
    by (simp add: scan_relocations_def scan_loop.simps scan_reloc_def Let_def example_defs
        SHF_ALLOC_def)
  have m: "example_objs ! 1 \<in> set example_objs"
    "example_trailing_isec \<in> set (sections (example_objs ! 1))"
    by (simp_all add: example_objs_def)
  have e5: "\<exists>r. scan_objs example_objs (heap example_state) = Ok r \<and>
        map file_has_error (snd r) = [False, True]"
    by (simp add: example_objs_def scan_relocations_def scan_loop.simps scan_reloc_def Let_def
        example_defs SHF_ALLOC_def direct_family_def got_family_def R_defs STT_OBJECT_def)
  then obtain r0 where r0: "scan_objs example_objs (heap example_state) = Ok r0"
    "map file_has_error (snd r0) = [False, True]"
    by (elim exE conjE)
  have v0: "0 \<in> set (scan_visits example_trailing_isec 0 example_state)"
    by (simp add: v)
  note T = unresolved_symbol_deferred [where i = 0 and sec = example_trailing_isec
      and st = example_state and hp = example_heap and out = example_out and buf = zero_mem
      and f = "example_objs ! 1" and objs = example_objs and r = r0
      and st' = "example_state\<lparr>has_error := True\<rparr>", OF i]
  note D = unresolved_symbol_deferred [where i = 0 and sec = example_debug_isec
      and st = example_state and hp = example_heap and out = example_out and buf = zero_mem
      and f = "example_objs ! 1" and objs = example_objs and r = r0
      and st' = example_state, OF j]
  from T r have e1: "scan_reloc example_trailing_isec 0 example_state
      = Ok (example_state\<lparr>has_error := True\<rparr>, 0)"
    by blast
  from T f have e2: "apply_reloc example_out example_heap example_trailing_isec 0 zero_mem
      = Inr (zero_mem, 0)"
    by blast
  from D n have e3: "scan_relocations example_debug_isec example_state = Ok example_state"
    by blast
  from T a v0 r m r0(1) have e4: "scan_rels example_objs (heap example_state) = Ok Exits"
    by blast
  from a r f e1 e2 n e3 v t m(2) e5 e4 show ?thesis
    by (intro conjI)
qed

text \<open>
  The claim as stated fails in a section that is not allocated: relocation 0
  of the section below refers to a symbol without defining file, and the scan
  returns with \<open>has_error\<close> still unset.
\<close>

theorem unresolved_symbol_deferred_counterexample:
  "sh_flags (shdr example_debug_isec) AND SHF_ALLOC = 0 \<and>
   sym_file (heap example_state (reloc_sym example_debug_isec 0)) = None \<and>
   scan_relocations example_debug_isec example_state = Ok example_state \<and>
   \<not> has_error example_state"
  by (simp add: scan_relocations_def SHF_ALLOC_def example_defs reloc_sym_def)

subsection \<open>Offsets of input sections\<close>

lemma unat_pow2: "n < 64 \<Longrightarrow> unat (2 ^ n :: 64 word) = 2 ^ n"
proof -
  assume n: "n < 64"
  then have "uint (2 ^ n :: 64 word) = 2 ^ n"
    by (intro uint_2p) (simp add: word_gt_0)
  then have "int (unat (2 ^ n :: 64 word)) = int (2 ^ n)"
    by simp
  then show ?thesis
    by (simp only: of_nat_eq_iff)
qed

lemma and_not_mask_minus: "(x :: 64 word) AND NOT (mask n) = x - take_bit n x"
proof -
  have "x - (x AND mask n) = x AND NOT (x AND mask n)"
    by (rule disjunctive_diff_eq_and_not) (rule bit_eqI, auto simp add: bit_simps)
  also have "\<dots> = x AND NOT (mask n)"
    by (rule bit_eqI) (auto simp add: bit_simps)
  finally show ?thesis
    by (simp add: take_bit_eq_mask)
qed

lemma take_bit_word_le: "take_bit n x \<le> (x :: 64 word)"
  by (simp add: unsigned_take_bit_eq word_le_nat_alt)

lemma unat_and_not_mask: "unat ((x :: 64 word) AND NOT (mask n)) = (unat x div 2 ^ n) * 2 ^ n"
proof -
  have "unat (x AND NOT (mask n)) = unat x - unat (take_bit n x)"
    unfolding and_not_mask_minus by (rule unat_sub) (rule take_bit_word_le)
  also have "\<dots> = unat x - unat x mod 2 ^ n"
    by (simp only: unsigned_take_bit_eq) (simp only: take_bit_eq_mod)
  also have "\<dots> = (unat x div 2 ^ n) * 2 ^ n"
    by (simp add: minus_mod_eq_div_mult)
  finally show ?thesis .
qed

lemma unat_align_to:
  assumes n: "n < 63" and v: "unat v < 2 ^ 63"
  shows "unat (align_to v (2 ^ n)) = align_nat (unat v) (2 ^ n)"
proof -
  have p: "(2::nat) ^ n \<le> 2 ^ 62"
    using n by (intro power_increasing) auto
  have m: "unat (mask n :: u64) = 2 ^ n - 1"
    using n by (simp add: mask_eq_decr_exp unat_sub word_le_nat_alt unat_pow2)
  have "unat v + unat (mask n :: u64) < 2 ^ 64"
    using v p m by simp
  then have "unat (v + mask n) = unat v + (2 ^ n - 1)"
    using m by (simp add: unat_add_lem [THEN iffD1])
  then show ?thesis
    by (simp add: align_to_pow2 unat_and_not_mask align_nat_def)
qed

lemma align_nat_ge: "0 < a \<Longrightarrow> v \<le> align_nat v a"
proof -
  assume a: "0 < a"
  have "(v + a - 1) div a * a = (v + a - 1) - (v + a - 1) mod a"
    by (simp add: minus_mod_eq_div_mult)
  moreover have "(v + a - 1) mod a < a"
    using a by simp
  ultimately show ?thesis
    unfolding align_nat_def by linarith
qed

lemma align_nat_dvd: "a dvd align_nat v a"
  by (simp add: align_nat_def)

lemma slice_end_nat_ge:
  "\<forall>m \<in> set ms. 0 < fst m \<Longrightarrow> off \<le> slice_end_nat off ms"
proof (induction ms arbitrary: off)
  case Nil
  then show ?case by simp
next
  case (Cons m ms)
  have "off \<le> align_nat off (fst m)"
    using Cons.prems by (simp add: align_nat_ge)
  also have "\<dots> \<le> align_nat off (fst m) + snd m"
    by simp
  also have "\<dots> \<le> slice_end_nat (align_nat off (fst m) + snd m) ms"
    using Cons by simp
  finally show ?case by simp
qed

lemma layout_end_nat_ge:
  assumes "0 < A"
  shows "s + slice_end_nat 0 sl \<le> layout_end_nat A s (sl # sls)"
proof (induction sls arbitrary: s sl)
  case Nil
  then show ?case by simp
next
  case (Cons sl' sls)
  have "s + slice_end_nat 0 sl \<le> align_nat (s + slice_end_nat 0 sl) A"
    using assms by (rule align_nat_ge)
  also have "\<dots> \<le> align_nat (s + slice_end_nat 0 sl) A + slice_end_nat 0 sl'"
    by simp
  also have "\<dots> \<le> layout_end_nat A (align_nat (s + slice_end_nat 0 sl) A) (sl' # sls)"
    by (rule Cons.IH)
  finally show ?case by simp
qed

lemma sless_pow2:
  assumes "n < 63" "m < 63"
  shows "(2 ^ n :: i64) <s 2 ^ m \<longleftrightarrow> n < m"
  using assms by (simp add: word_sless_alt sint_pow2)

lemma max_i64_pow2:
  assumes "n < 63" "m < 63"
  shows "max_i64 (2 ^ n) (2 ^ m) = 2 ^ max n m"
  using assms by (simp add: max_i64_def sless_pow2 max_def)

lemma max_i64_one_pow2:
  assumes "m < 63"
  shows "max_i64 1 (2 ^ m) = 2 ^ m"
  using max_i64_pow2 [of 0 m] assms by simp

lemma only_offset_refl [simp]: "only_offset m m"
  by (simp add: only_offset_def)

lemma only_offset_upd [simp]: "only_offset m (m\<lparr>offset := x\<rparr>)"
  by (simp add: only_offset_def)

lemma only_offset_shdr: "only_offset m m' \<Longrightarrow> shdr m' = shdr m"
  by (metis InputChunk.select_convs(1) InputChunk.surjective InputChunk.update_convs(4) only_offset_def)

lemma slice_offsets_only_offset:
  "list_all2 only_offset ms (fst (slice_offsets off a ms))"
  by (induction ms arbitrary: off a) (simp_all add: Let_def)

lemma slice_offsets_align:
  assumes "j < 63" and "\<forall>m \<in> set ms. \<exists>n<63. sh_addralign (shdr m) = 2 ^ n"
  shows "\<exists>K<63. snd (snd (slice_offsets off (2 ^ j) ms)) = 2 ^ K \<and> j \<le> K \<and>
           (\<forall>m \<in> set ms. \<exists>n\<le>K. sh_addralign (shdr m) = 2 ^ n)"
  using assms
proof (induction ms arbitrary: off j)
  case Nil
  then show ?case by auto
next
  case (Cons m ms)
  from Cons.prems obtain n where n: "n < 63" "sh_addralign (shdr m) = 2 ^ n"
    by auto
  have mx: "max_i64 (2 ^ j) (sh_addralign (shdr m)) = 2 ^ max j n"
    using Cons.prems(1) n by (simp add: max_i64_pow2)
  have "max j n < 63"
    using Cons.prems(1) n by simp
  from Cons.IH [OF this, of "align_to off (2 ^ n) + sh_size (shdr m)"] Cons.prems(2)
  obtain K where K: "K < 63"
    "snd (snd (slice_offsets (align_to off (2 ^ n) + sh_size (shdr m)) (2 ^ max j n) ms)) = 2 ^ K"
    "max j n \<le> K" "\<forall>m \<in> set ms. \<exists>n\<le>K. sh_addralign (shdr m) = 2 ^ n"
    by auto
  have "n \<le> K" "j \<le> K"
    using K(3) by simp_all
  with K n mx show ?case
    by (auto simp add: Let_def)
qed

lemma chained_le: "chained lo ms hi \<Longrightarrow> lo \<le> hi"
proof (induction ms arbitrary: lo)
  case Nil
  then show ?case by simp
next
  case (Cons m ms)
  then have "unat (offset m) + unat (sh_size (shdr m)) \<le> hi" "lo \<le> unat (offset m)"
    by simp_all
  then show ?case by linarith
qed

lemma chained_lo_mono: "chained lo ms hi \<Longrightarrow> lo' \<le> lo \<Longrightarrow> chained lo' ms hi"
  by (cases ms) auto

lemma chained_hi_mono: "chained lo ms hi \<Longrightarrow> hi \<le> hi' \<Longrightarrow> chained lo ms hi'"
  by (induction ms arbitrary: lo) auto

lemma chained_append:
  "chained lo xs mid \<Longrightarrow> chained mid ys hi \<Longrightarrow> chained lo (xs @ ys) hi"
  by (induction xs arbitrary: lo) (auto intro: chained_lo_mono)

lemma member_spec_pos:
  assumes "\<forall>m \<in> set ms. \<exists>n<63. sh_addralign (shdr m) = 2 ^ n"
  shows "\<forall>m \<in> set (map member_spec ms). 0 < fst m"
  using assms by (auto simp add: member_spec_def unat_pow2)

lemma slice_offsets_correct:
  assumes "\<forall>m \<in> set ms. \<exists>n<63. sh_addralign (shdr m) = 2 ^ n"
    and "slice_end_nat (unat off) (map member_spec ms) < 2 ^ 63"
  shows "unat (fst (snd (slice_offsets off a ms))) = slice_end_nat (unat off) (map member_spec ms) \<and>
         chained (unat off) (fst (slice_offsets off a ms))
           (slice_end_nat (unat off) (map member_spec ms)) \<and>
         (\<forall>m' \<in> set (fst (slice_offsets off a ms)).
            offset m' mod sh_addralign (shdr m') = 0)"
  using assms
proof (induction ms arbitrary: off a)
  case Nil
  then show ?case by simp
next
  case (Cons m ms)
  from Cons.prems(1) obtain n where n: "n < 63" "sh_addralign (shdr m) = 2 ^ n"
    by auto
  let ?off1 = "align_to off (2 ^ n)"
  let ?off2 = "?off1 + sh_size (shdr m)"
  have spec: "member_spec m = (2 ^ n, unat (sh_size (shdr m)))"
    using n by (simp add: member_spec_def unat_pow2)
  have pos: "\<forall>m \<in> set (map member_spec ms). 0 < fst m"
    using Cons.prems(1) by (intro member_spec_pos) simp
  have e: "slice_end_nat (unat off) (map member_spec (m # ms)) =
           slice_end_nat (align_nat (unat off) (2 ^ n) + unat (sh_size (shdr m))) (map member_spec ms)"
    by (simp add: spec)
  have ge2: "align_nat (unat off) (2 ^ n) + unat (sh_size (shdr m))
      \<le> slice_end_nat (unat off) (map member_spec (m # ms))"
    unfolding e using pos by (rule slice_end_nat_ge)
  have ge1: "unat off \<le> align_nat (unat off) (2 ^ n)"
    by (simp add: align_nat_ge)
  have offlt: "unat off < 2 ^ 63"
    using ge1 ge2 Cons.prems(2) by linarith
  have u1: "unat ?off1 = align_nat (unat off) (2 ^ n)"
    using n(1) offlt by (rule unat_align_to)
  have "unat ?off1 + unat (sh_size (shdr m)) < 2 ^ 64"
    using u1 ge2 Cons.prems(2) by simp
  then have u2: "unat ?off2 = align_nat (unat off) (2 ^ n) + unat (sh_size (shdr m))"
    using u1 by (simp add: unat_add_lem [THEN iffD1])
  have b2: "slice_end_nat (unat ?off2) (map member_spec ms) < 2 ^ 63"
    using Cons.prems(2) e u2 by simp
  have al2: "\<forall>m \<in> set ms. \<exists>n<63. sh_addralign (shdr m) = 2 ^ n"
    using Cons.prems(1) by simp
  note IH = Cons.IH [OF al2 b2, of "max_i64 a (2 ^ n)"]
  have hd_al: "?off1 mod 2 ^ n = 0"
    by (rule align_to_mod_zero)
  show ?case
    using IH n(2) u1 u2 e ge1 hd_al
    by (simp add: Let_def)
qed

lemma only_offset_trans: "only_offset a b \<Longrightarrow> only_offset b c \<Longrightarrow> only_offset a c"
  unfolding only_offset_def by (metis InputChunk.update_convs(4) InputChunk.surjective)

lemma add_start_only_offset: "list_all2 only_offset ms (add_start s ms)"
  by (induction ms) (simp_all add: add_start_def)

lemma add_start_zero [simp]: "add_start 0 ms = ms"
  by (simp add: add_start_def)

lemma add_start_chained:
  assumes "chained lo ms hi" "unat s + hi < 2 ^ 64"
  shows "chained (unat s + lo) (add_start s ms) (unat s + hi)"
  using assms
proof (induction ms arbitrary: lo)
  case Nil
  then show ?case by (simp add: add_start_def)
next
  case (Cons m ms)
  from Cons.prems have lo: "lo \<le> unat (offset m)"
    and tl: "chained (unat (offset m) + unat (sh_size (shdr m))) ms hi"
    by simp_all
  from tl have "unat (offset m) + unat (sh_size (shdr m)) \<le> hi"
    by (rule chained_le)
  with Cons.prems(2) have "unat (offset m) + unat s < 2 ^ 64"
    by simp
  then have u: "unat (offset m + s) = unat (offset m) + unat s"
    by (simp add: unat_add_lem [THEN iffD1])
  from Cons.IH [OF tl Cons.prems(2)]
  have "chained (unat s + (unat (offset m) + unat (sh_size (shdr m)))) (add_start s ms) (unat s + hi)" .
  with lo u show ?case
    by (simp add: add_start_def add.assoc add.commute add.left_commute)
qed

lemma take_bit_zero_le:
  assumes "take_bit K (s :: 'a::len word) = 0" "n \<le> K"
  shows "take_bit n s = 0"
proof -
  have "take_bit n s = take_bit n (take_bit K s)"
    using assms(2) by (simp add: take_bit_take_bit min_def)
  then show ?thesis using assms(1) by simp
qed

lemma add_start_aligned:
  assumes "\<forall>m \<in> set ms. \<exists>n\<le>K. sh_addralign (shdr m) = 2 ^ n"
    and "\<forall>m \<in> set ms. offset m mod sh_addralign (shdr m) = 0"
    and "take_bit K s = 0"
  shows "\<forall>m' \<in> set (add_start s ms). offset m' mod sh_addralign (shdr m') = 0"
proof
  fix m' assume "m' \<in> set (add_start s ms)"
  then obtain m where m: "m \<in> set ms" "m' = m\<lparr>offset := offset m + s\<rparr>"
    by (auto simp add: add_start_def)
  from assms(1) m(1) obtain n where n: "n \<le> K" "sh_addralign (shdr m) = 2 ^ n"
    by auto
  from assms(2) m(1) have "offset m mod sh_addralign (shdr m) = 0"
    by blast
  then have "take_bit n (offset m) = 0"
    by (simp add: take_bit_eq_mod n(2))
  moreover have "take_bit n s = 0"
    using assms(3) n(1) by (rule take_bit_zero_le)
  ultimately have "take_bit n (offset m + s) = 0"
    by (metis word_take_bit_add add.right_neutral take_bit_of_0)
  then show "offset m' mod sh_addralign (shdr m') = 0"
    using m(2) n(2) by (simp add: take_bit_eq_mod)
qed

lemma slice_offsets_shdr:
  "m' \<in> set (fst (slice_offsets off a ms)) \<Longrightarrow> \<exists>m \<in> set ms. shdr m' = shdr m"
  using slice_offsets_only_offset [of ms off a]
  by (metis in_set_conv_nth list_all2_conv_all_nth only_offset_shdr)

lemma pow2_bound: "n < 63 \<Longrightarrow> (2::nat) ^ n < 2 ^ 63"
  by (intro power_strict_increasing) auto

lemma layout_slices_correct:
  assumes K: "K < 63"
    and al: "\<forall>sl \<in> set slices. \<forall>m \<in> set sl. \<exists>n\<le>K. sh_addralign (shdr m) = 2 ^ n"
    and s: "take_bit K s = 0"
    and bound: "layout_end_nat (2 ^ K) (unat s) (map (map member_spec) slices) < 2 ^ 63"
  shows "unat (snd (layout_slices (2 ^ K) s slices)) =
           layout_end_nat (2 ^ K) (unat s) (map (map member_spec) slices) \<and>
         chained (unat s) (concat (fst (layout_slices (2 ^ K) s slices)))
           (unat (snd (layout_slices (2 ^ K) s slices))) \<and>
         (\<forall>m' \<in> set (concat (fst (layout_slices (2 ^ K) s slices))).
            offset m' mod sh_addralign (shdr m') = 0) \<and>
         list_all2 only_offset (concat slices) (concat (fst (layout_slices (2 ^ K) s slices)))"
  using al s bound
proof (induction slices arbitrary: s)
  case Nil
  then show ?case by simp
next
  case (Cons sl sls)
  let ?r = "slice_offsets 0 1 sl"
  let ?E = "slice_end_nat 0 (map member_spec sl)"
  have al_sl: "\<forall>m \<in> set sl. \<exists>n\<le>K. sh_addralign (shdr m) = 2 ^ n"
    using Cons.prems(1) by simp
  then have al63: "\<forall>m \<in> set sl. \<exists>n<63. sh_addralign (shdr m) = 2 ^ n"
    using K by (meson le_less_trans)
  have pos: "(0::nat) < 2 ^ K"
    by simp
  have ge: "unat s + ?E \<le> layout_end_nat (2 ^ K) (unat s) (map member_spec sl # map (map member_spec) sls)"
    using pos by (rule layout_end_nat_ge)
  with Cons.prems(3) have sE: "unat s + ?E < 2 ^ 63"
    by simp
  then have E63: "slice_end_nat (unat (0::u64)) (map member_spec sl) < 2 ^ 63"
    by simp
  from slice_offsets_correct [OF al63 E63, of 1]
  have size: "unat (fst (snd ?r)) = ?E"
    and ch: "chained 0 (fst ?r) ?E"
    and ali: "\<forall>m' \<in> set (fst ?r). offset m' mod sh_addralign (shdr m') = 0"
    by simp_all
  have al_r: "\<forall>m \<in> set (fst ?r). \<exists>n\<le>K. sh_addralign (shdr m) = 2 ^ n"
    using al_sl slice_offsets_shdr [of _ 0 1 sl] by metis
  have sE64: "unat s + ?E < 2 ^ 64"
    using sE by simp
  have ch_s: "chained (unat s) (add_start s (fst ?r)) (unat s + ?E)"
    using add_start_chained [OF ch sE64] by simp
  have ali_s: "\<forall>m' \<in> set (add_start s (fst ?r)). offset m' mod sh_addralign (shdr m') = 0"
    using al_r ali Cons.prems(2) by (rule add_start_aligned)
  have oo: "list_all2 only_offset sl (add_start s (fst ?r))"
    using slice_offsets_only_offset [of sl 0 1] add_start_only_offset [of "fst ?r" s]
    by (rule list_all2_trans [rotated]) (rule only_offset_trans)
  have u_end: "unat (s + fst (snd ?r)) = unat s + ?E"
    using sE64 size by (simp add: unat_add_lem [THEN iffD1])
  show ?case
  proof (cases sls)
    case Nil
    then show ?thesis
      using ch_s ali_s oo u_end by simp
  next
    case (Cons sl' sls')
    let ?s' = "align_to (s + fst (snd ?r)) (2 ^ K)"
    have lt: "unat (s + fst (snd ?r)) < 2 ^ 63"
      using u_end sE by simp
    have u': "unat ?s' = align_nat (unat s + ?E) (2 ^ K)"
      using unat_align_to [OF K lt] u_end by simp
    have tb: "take_bit K ?s' = 0"
      by (rule take_bit_align_to_zero)
    have al': "\<forall>sl \<in> set sls. \<forall>m \<in> set sl. \<exists>n\<le>K. sh_addralign (shdr m) = 2 ^ n"
      using Cons.prems(1) by simp
    have b': "layout_end_nat (2 ^ K) (unat ?s') (map (map member_spec) sls) < 2 ^ 63"
      using Cons.prems(3) Cons u' by simp
    note IH = Cons.IH [OF al' tb b']
    have le: "unat s + ?E \<le> unat ?s'"
      using u' by (simp add: align_nat_ge)
    have ch1: "chained (unat s) (add_start s (fst ?r)) (unat ?s')"
      using ch_s le by (rule chained_hi_mono)
    have eq: "layout_slices (2 ^ K) s (sl # sls) =
        (add_start s (fst ?r) # fst (layout_slices (2 ^ K) ?s' sls),
         snd (layout_slices (2 ^ K) ?s' sls))"
      using Cons by (simp add: Let_def)
    have e_nat: "layout_end_nat (2 ^ K) (unat s) (map (map member_spec) (sl # sls)) =
        layout_end_nat (2 ^ K) (unat ?s') (map (map member_spec) sls)"
      using Cons u' by simp
    show ?thesis
      unfolding eq e_nat
      using IH ch1 ali_s oo
      by (auto intro: chained_append list_all2_appendI)
  qed
qed

lemma split_loop_chop:
  assumes "0 < unit"
  shows "split_loop xs unit vec = Some (vec @ chop unit xs)"
proof (induction xs arbitrary: vec rule: length_induct)
  case (1 xs)
  show ?case
  proof (cases "unit \<le> length xs")
    case True
    then have "length (drop unit xs) < length xs"
      using assms by simp
    with 1 have "split_loop (drop unit xs) unit (vec @ [take unit xs]) =
        Some ((vec @ [take unit xs]) @ chop unit (drop unit xs))"
      by blast
    then show ?thesis
      using True assms by (subst split_loop.simps, subst chop.simps) simp
  next
    case False
    then show ?thesis
      by (subst split_loop.simps, subst chop.simps) simp
  qed
qed

lemma concat_chop: "concat (chop unit xs) = xs"
proof (induction unit xs rule: chop.induct)
  case (1 unit xs)
  then show ?case
    by (subst chop.simps) auto
qed

lemma chop_nonempty: "xs \<noteq> [] \<Longrightarrow> chop unit xs \<noteq> []"
  by (subst chop.simps) simp

lemma chop_slices_nonempty: "sl \<in> set (chop unit xs) \<Longrightarrow> sl \<noteq> []"
proof (induction unit xs rule: chop.induct)
  case (1 unit xs)
  from "1.prems" show ?case
    apply (subst (asm) chop.simps)
    using "1.IH" by (auto split: if_splits)
qed

lemma chop_map: "chop unit (map f xs) = map (map f) (chop unit xs)"
proof (induction unit xs rule: chop.induct)
  case (1 unit xs)
  show ?case
    using "1.IH"
    by (subst chop.simps, subst (2) chop.simps) (auto simp add: take_map drop_map)
qed

lemma chop_set: "sl \<in> set (chop unit xs) \<Longrightarrow> set sl \<subseteq> set xs"
  by (metis concat_chop UN_upper set_concat)

lemma max_i64_cases: "max_i64 a b = a \<or> max_i64 a b = b"
  by (simp add: max_i64_def)

lemma slice_offsets_align_attained:
  "snd (snd (slice_offsets off a ms)) = a \<or>
   (\<exists>m \<in> set ms. snd (snd (slice_offsets off a ms)) = sh_addralign (shdr m))"
proof (induction ms arbitrary: off a)
  case Nil
  then show ?case by simp
next
  case (Cons m ms)
  let ?a' = "max_i64 a (sh_addralign (shdr m))"
  let ?off' = "align_to off (sh_addralign (shdr m)) + sh_size (shdr m)"
  from Cons.IH [of ?off' ?a'] max_i64_cases [of a "sh_addralign (shdr m)"]
  show ?case
    by (auto simp add: Let_def)
qed

lemma max_element_pow2:
  assumes "j < 63" and "\<forall>x \<in> set xs. \<exists>n<63. x = 2 ^ n"
  shows "\<exists>K<63. max_element (2 ^ j) xs = 2 ^ K \<and> j \<le> K \<and> (\<forall>x \<in> set xs. \<exists>n\<le>K. x = 2 ^ n)"
  using assms
proof (induction xs arbitrary: j)
  case Nil
  then show ?case by auto
next
  case (Cons x xs)
  from Cons.prems obtain n where n: "n < 63" "x = 2 ^ n"
    by auto
  have mx: "(if (2 ^ j :: i64) <s x then x else 2 ^ j) = 2 ^ max j n"
    using Cons.prems(1) n by (simp add: sless_pow2 max_def)
  have "max j n < 63"
    using Cons.prems(1) n by simp
  from Cons.IH [OF this] Cons.prems(2)
  obtain K where K: "K < 63" "max_element (2 ^ max j n) xs = 2 ^ K" "max j n \<le> K"
    "\<forall>x \<in> set xs. \<exists>n\<le>K. x = 2 ^ n"
    by auto
  have "n \<le> K" "j \<le> K"
    using K(3) by simp_all
  with K n mx show ?case
    by auto
qed

lemma max_element_attained: "max_element m xs = m \<or> max_element m xs \<in> set xs"
proof (induction xs arbitrary: m)
  case Nil
  then show ?case by simp
next
  case (Cons x xs)
  from Cons.IH [of "if m <s x then x else m"] show ?case
    by (auto split: if_splits)
qed

lemma pow2_word_inj:
  assumes "a < 64" "b < 64" "(2 ^ a :: u64) = 2 ^ b"
  shows "a = b"
proof -
  from assms have "(2::nat) ^ a = 2 ^ b"
    by (metis unat_pow2)
  then show ?thesis by simp
qed

lemma slice_alignment:
  assumes "sl \<noteq> []" and "\<forall>m \<in> set sl. \<exists>n<63. sh_addralign (shdr m) = 2 ^ n"
  shows "\<exists>K<63. snd (snd (slice_offsets 0 1 sl)) = 2 ^ K \<and>
           (\<forall>m \<in> set sl. \<exists>n\<le>K. sh_addralign (shdr m) = 2 ^ n) \<and>
           (\<exists>m \<in> set sl. sh_addralign (shdr m) = 2 ^ K)"
proof -
  have z: "(0::nat) < 63" by simp
  from slice_offsets_align [OF z assms(2), of 0]
  obtain K where K: "K < 63" "snd (snd (slice_offsets 0 1 sl)) = 2 ^ K"
    "\<forall>m \<in> set sl. \<exists>n\<le>K. sh_addralign (shdr m) = 2 ^ n"
    by auto
  have "\<exists>m \<in> set sl. sh_addralign (shdr m) = 2 ^ K"
  proof (cases "snd (snd (slice_offsets 0 1 sl)) = 1")
    case True
    with K have "(2 ^ K :: u64) = 2 ^ 0" by simp
    with K(1) have "K = 0"
      by (intro pow2_word_inj) auto
    with K(3) have "\<forall>m \<in> set sl. sh_addralign (shdr m) = 1"
      by auto
    with assms(1) \<open>K = 0\<close> show ?thesis
      by (cases sl) auto
  next
    case False
    with slice_offsets_align_attained [of 0 1 sl] K(2) show ?thesis
      by auto
  qed
  with K show ?thesis by blast
qed

lemma section_alignment:
  assumes ne: "slices \<noteq> []" and sne: "\<forall>sl \<in> set slices. sl \<noteq> []"
    and al: "\<forall>sl \<in> set slices. \<forall>m \<in> set sl. \<exists>n<63. sh_addralign (shdr m) = 2 ^ n"
  shows "\<exists>K<63.
     max_element (hd (map (\<lambda>r. snd (snd r)) (map (slice_offsets 0 1) slices)))
                 (tl (map (\<lambda>r. snd (snd r)) (map (slice_offsets 0 1) slices))) = 2 ^ K \<and>
     (\<forall>sl \<in> set slices. \<forall>m \<in> set sl. \<exists>n\<le>K. sh_addralign (shdr m) = 2 ^ n) \<and>
     (\<exists>sl \<in> set slices. \<exists>m \<in> set sl. sh_addralign (shdr m) = 2 ^ K)"
proof -
  let ?al = "\<lambda>sl. snd (snd (slice_offsets 0 1 sl))"
  have each: "\<exists>K<63. ?al sl = 2 ^ K \<and>
           (\<forall>m \<in> set sl. \<exists>n\<le>K. sh_addralign (shdr m) = 2 ^ n) \<and>
           (\<exists>m \<in> set sl. sh_addralign (shdr m) = 2 ^ K)" if "sl \<in> set slices" for sl
    using that sne al by (intro slice_alignment) auto
  from ne obtain sl0 rest where slices: "slices = sl0 # rest"
    by (cases slices) auto
  from each [of sl0] slices obtain j where j: "j < 63" "?al sl0 = 2 ^ j"
    by auto
  have tlp: "\<forall>x \<in> set (map ?al rest). \<exists>n<63. x = 2 ^ n"
    using each slices by auto
  from max_element_pow2 [OF j(1) tlp]
  obtain K where K: "K < 63" "max_element (2 ^ j) (map ?al rest) = 2 ^ K" "j \<le> K"
    "\<forall>x \<in> set (map ?al rest). \<exists>n\<le>K. x = 2 ^ n"
    by auto
  have allk: "\<exists>n\<le>K. ?al sl = 2 ^ n" if "sl \<in> set slices" for sl
    using that slices j K by auto
  have mem: "\<exists>n\<le>K. sh_addralign (shdr m) = 2 ^ n" if "sl \<in> set slices" "m \<in> set sl" for sl m
  proof -
    from each [OF that(1)] obtain Ks where Ks: "Ks < 63" "?al sl = 2 ^ Ks"
      "\<forall>m \<in> set sl. \<exists>n\<le>Ks. sh_addralign (shdr m) = 2 ^ n"
      by auto
    from allk [OF that(1)] obtain n' where n': "n' \<le> K" "?al sl = 2 ^ n'"
      by auto
    have "Ks = n'"
      using Ks(1,2) n' K(1) by (intro pow2_word_inj) auto
    with Ks(3) that(2) n'(1) show ?thesis
      by (meson le_trans)
  qed
  have "max_element (2 ^ j) (map ?al rest) = 2 ^ j \<or> max_element (2 ^ j) (map ?al rest) \<in> set (map ?al rest)"
    by (rule max_element_attained)
  then have "\<exists>sl \<in> set slices. ?al sl = 2 ^ K"
    using K(2) j(2) slices by auto
  then obtain sl where sl: "sl \<in> set slices" "?al sl = 2 ^ K"
    by auto
  from each [OF sl(1)] obtain Ks where Ks: "Ks < 63" "?al sl = 2 ^ Ks"
    "\<exists>m \<in> set sl. sh_addralign (shdr m) = 2 ^ Ks"
    by auto
  have "Ks = K"
    using Ks(1,2) sl(2) K(1) by (intro pow2_word_inj) auto
  with Ks(3) sl(1) have att: "\<exists>sl \<in> set slices. \<exists>m \<in> set sl. sh_addralign (shdr m) = 2 ^ K"
    by auto
  have "max_element (hd (map (\<lambda>r. snd (snd r)) (map (slice_offsets 0 1) slices)))
                 (tl (map (\<lambda>r. snd (snd r)) (map (slice_offsets 0 1) slices))) = 2 ^ K"
    using slices j(2) K(2) by (simp add: comp_def)
  with K(1) mem att show ?thesis
    by blast
qed

lemma layout_slices_passes:
  "map (\<lambda>(s, r). add_start s (fst r))
       (zip (slice_starts A s (map (\<lambda>r. fst (snd r)) (map (slice_offsets 0 1) slices)))
            (map (slice_offsets 0 1) slices)) = fst (layout_slices A s slices) \<and>
   (slices \<noteq> [] \<longrightarrow>
      last (slice_starts A s (map (\<lambda>r. fst (snd r)) (map (slice_offsets 0 1) slices))) +
      last (map (\<lambda>r. fst (snd r)) (map (slice_offsets 0 1) slices)) =
      snd (layout_slices A s slices))"
proof (induction slices arbitrary: s)
  case Nil
  then show ?case by simp
next
  case (Cons sl sls)
  show ?case
  proof (cases sls)
    case Nil
    then show ?thesis by simp
  next
    case (Cons sl' sls')
    with Cons.IH [of "align_to (s + fst (snd (slice_offsets 0 1 sl))) A"]
    show ?thesis
      by (simp add: Let_def)
  qed
qed

lemma set_isec_offsets_unit_layout:
  assumes "0 < unit" "members osec \<noteq> []"
  shows "set_isec_offsets_unit unit osec =
     (let slices = chop unit (members osec);
          alignments = map (\<lambda>r. snd (snd r)) (map (slice_offsets 0 1) slices);
          A = max_element (hd alignments) (tl alignments);
          L = layout_slices A 0 slices
      in Some (osec\<lparr>members := concat (fst L),
                    osec_shdr := (osec_shdr osec)\<lparr>sh_size := snd L, sh_addralign := A\<rparr>\<rparr>))"
proof -
  let ?slices = "chop unit (members osec)"
  have sp: "split (members osec) unit = Some ?slices"
    using assms by (simp add: split_def split_loop_chop)
  have ne: "?slices \<noteq> []"
    using assms(2) by (rule chop_nonempty)
  then obtain sl rest where sl: "?slices = sl # rest"
    by (cases ?slices) auto
  let ?A = "max_element (hd (map (\<lambda>r. snd (snd r)) (map (slice_offsets 0 1) ?slices)))
               (tl (map (\<lambda>r. snd (snd r)) (map (slice_offsets 0 1) ?slices)))"
  let ?pass1 = "map (slice_offsets 0 1) ?slices"
  let ?sizes = "map (\<lambda>r. fst (snd r)) ?pass1"
  let ?start = "slice_starts ?A 0 ?sizes"
  note P = layout_slices_passes [of ?A 0 ?slices]
  have "fst (hd ?pass1) # map (\<lambda>(s, r). add_start s (fst r)) (zip (tl ?start) (tl ?pass1)) =
        map (\<lambda>(s, r). add_start s (fst r)) (zip ?start ?pass1)"
    by (simp add: sl)
  then have p2: "fst (hd ?pass1) # map (\<lambda>(s, r). add_start s (fst r)) (zip (tl ?start) (tl ?pass1)) =
        fst (layout_slices ?A 0 ?slices)"
    using P by simp
  have c2: "concat (fst (hd ?pass1) #
                  map (\<lambda>(s, r). add_start s (fst r)) (zip (tl ?start) (tl ?pass1))) =
            concat (fst (layout_slices ?A 0 ?slices))"
    by (simp only: p2)
  have sz: "last ?start + last ?sizes = snd (layout_slices ?A 0 ?slices)"
    using P ne by simp
  show ?thesis
    unfolding set_isec_offsets_unit_def
    using assms(2) sp c2 sz
    by (simp add: Let_def)
qed

lemma chained_lower:
  "chained lo ms hi \<Longrightarrow> k < length ms \<Longrightarrow> lo \<le> unat (offset (ms ! k))"
proof (induction ms arbitrary: lo k)
  case Nil
  then show ?case by simp
next
  case (Cons m ms)
  show ?case
  proof (cases k)
    case 0
    with Cons.prems show ?thesis by simp
  next
    case (Suc k')
    with Cons.prems have "k' < length ms"
      and "chained (unat (offset m) + unat (sh_size (shdr m))) ms hi" and "lo \<le> unat (offset m)"
      by simp_all
    with Cons.IH [of "unat (offset m) + unat (sh_size (shdr m))" k'] Suc show ?thesis
      by simp
  qed
qed

lemma chained_nth_le:
  "chained lo ms hi \<Longrightarrow> i < j \<Longrightarrow> j < length ms \<Longrightarrow>
     unat (offset (ms ! i)) + unat (sh_size (shdr (ms ! i))) \<le> unat (offset (ms ! j))"
proof (induction ms arbitrary: lo i j)
  case Nil
  then show ?case by simp
next
  case (Cons m ms)
  from Cons.prems obtain j' where j': "j = Suc j'" "j' < length ms"
    by (cases j) auto
  from Cons.prems have tl: "chained (unat (offset m) + unat (sh_size (shdr m))) ms hi"
    by simp
  show ?case
  proof (cases i)
    case 0
    with chained_lower [OF tl j'(2)] j' show ?thesis by simp
  next
    case (Suc i')
    with Cons.prems j' have "i' < j'" by simp
    from Cons.IH [OF tl this j'(2)] Suc j' show ?thesis by simp
  qed
qed

lemma chained_last:
  "chained lo ms hi \<Longrightarrow> ms \<noteq> [] \<Longrightarrow>
     unat (offset (last ms)) + unat (sh_size (shdr (last ms))) \<le> hi"
proof (induction ms arbitrary: lo)
  case Nil
  then show ?case by simp
next
  case (Cons m ms)
  then show ?case
    by (cases ms) auto
qed

lemma byte_range_disjoint:
  assumes "unat (offset a) + unat (sh_size (shdr a)) \<le> unat (offset b)"
  shows "byte_range a \<inter> byte_range b = {}"
  using assms by (auto simp add: byte_range_def)

lemma chained_disjoint:
  assumes "chained lo ms hi" "i < length ms" "j < length ms" "i \<noteq> j"
  shows "byte_range (ms ! i) \<inter> byte_range (ms ! j) = {}"
proof (cases "i < j")
  case True
  from chained_nth_le [OF assms(1) True assms(3)] show ?thesis
    by (rule byte_range_disjoint)
next
  case False
  with assms(4) have "j < i" by simp
  from chained_nth_le [OF assms(1) this assms(2)]
  have "byte_range (ms ! j) \<inter> byte_range (ms ! i) = {}"
    by (rule byte_range_disjoint)
  then show ?thesis by blast
qed

text \<open>
  Claim C5, amended.  The offsets are computed in 64-bit arithmetic, which
  wraps around, and alignments are compared as signed numbers.  Let the slice
  length be positive (it is 10000 in \<open>set_isec_offsets\<close>), every alignment
  a power of two below \<open>2 ^ 63\<close>, and let the layout computed without
  wrap-around end below \<open>2 ^ 63\<close>.  Then \<open>split\<close> returns, the members
  keep everything but their offsets, their half-open byte ranges are pairwise
  disjoint, each member's offset is a multiple of its alignment, and the
  section's \<open>sh_size\<close> is at least the end of the last member's range.
\<close>

theorem set_isec_offsets_layout:
  assumes unit: "0 < unit"
    and al: "\<forall>m \<in> set (members osec). \<exists>n<63. sh_addralign (shdr m) = 2 ^ n"
    and bound: "section_end_nat unit (members osec) < 2 ^ 63"
  shows "\<exists>osec'. set_isec_offsets_unit unit osec = Some osec' \<and>
      (unit = 10000 \<longrightarrow> set_isec_offsets osec = Some osec') \<and>
      list_all2 only_offset (members osec) (members osec') \<and>
      (\<forall>i j. i < length (members osec') \<and> j < length (members osec') \<and> i \<noteq> j \<longrightarrow>
         byte_range (members osec' ! i) \<inter> byte_range (members osec' ! j) = {}) \<and>
      (\<forall>m' \<in> set (members osec'). offset m' mod sh_addralign (shdr m') = 0) \<and>
      (members osec \<noteq> [] \<longrightarrow>
         unat (offset (last (members osec'))) + unat (sh_size (shdr (last (members osec'))))
           \<le> unat (sh_size (osec_shdr osec')))"
proof (cases "members osec = []")
  case True
  then have "set_isec_offsets_unit unit osec = Some osec"
    by (simp add: set_isec_offsets_unit_def)
  with True show ?thesis
    by (auto simp add: set_isec_offsets_def)
next
  case False
  let ?ms = "members osec"
  let ?slices = "chop unit ?ms"
  let ?A = "max_element (hd (map (\<lambda>r. snd (snd r)) (map (slice_offsets 0 1) ?slices)))
               (tl (map (\<lambda>r. snd (snd r)) (map (slice_offsets 0 1) ?slices)))"
  have ne: "?slices \<noteq> []"
    using False by (rule chop_nonempty)
  have sne: "\<forall>sl \<in> set ?slices. sl \<noteq> []"
    using chop_slices_nonempty by blast
  have mem: "\<forall>sl \<in> set ?slices. \<forall>m \<in> set sl. m \<in> set ?ms"
    using chop_set by blast
  have al_s: "\<forall>sl \<in> set ?slices. \<forall>m \<in> set sl. \<exists>n<63. sh_addralign (shdr m) = 2 ^ n"
    using al mem by blast
  from section_alignment [OF ne sne al_s]
  obtain K where K: "K < 63" "?A = 2 ^ K"
    "\<forall>sl \<in> set ?slices. \<forall>m \<in> set sl. \<exists>n\<le>K. sh_addralign (shdr m) = 2 ^ n"
    "\<exists>sl \<in> set ?slices. \<exists>m \<in> set sl. sh_addralign (shdr m) = 2 ^ K"
    by blast
  have all_le: "\<forall>m \<in> set ?ms. \<exists>n\<le>K. sh_addralign (shdr m) = 2 ^ n"
  proof
    fix m assume "m \<in> set ?ms"
    then have "m \<in> set (concat ?slices)"
      by (simp add: concat_chop)
    with K(3) show "\<exists>n\<le>K. sh_addralign (shdr m) = 2 ^ n"
      by auto
  qed
  have mx: "Max (set (map fst (map member_spec ?ms))) = 2 ^ K"
  proof (rule Max_eqI)
    show "finite (set (map fst (map member_spec ?ms)))"
      by simp
  next
    fix y assume "y \<in> set (map fst (map member_spec ?ms))"
    then obtain m where m: "m \<in> set ?ms" "y = unat (sh_addralign (shdr m))"
      by (auto simp add: member_spec_def)
    with all_le obtain n where n: "n \<le> K" "sh_addralign (shdr m) = 2 ^ n"
      by auto
    with K(1) have "unat (sh_addralign (shdr m)) = 2 ^ n"
      by (simp add: unat_pow2)
    with m(2) n(1) show "y \<le> 2 ^ K"
      by simp
  next
    from K(4) mem obtain m where m: "m \<in> set ?ms" "sh_addralign (shdr m) = 2 ^ K"
      by blast
    with K(1) have "fst (member_spec m) = 2 ^ K"
      by (simp add: member_spec_def unat_pow2)
    with m(1) show "2 ^ K \<in> set (map fst (map member_spec ?ms))"
      by force
  qed
  have b: "layout_end_nat (2 ^ K) (unat (0::u64)) (map (map member_spec) ?slices) < 2 ^ 63"
    using bound unfolding section_end_nat_def mx chop_map by simp
  have z: "take_bit K (0::u64) = 0"
    by simp
  note L = layout_slices_correct [OF K(1,3) z b]
  have ch: "chained 0 (concat (fst (layout_slices (2 ^ K) 0 ?slices)))
              (unat (snd (layout_slices (2 ^ K) 0 ?slices)))"
    and ali: "\<forall>m' \<in> set (concat (fst (layout_slices (2 ^ K) 0 ?slices))).
                offset m' mod sh_addralign (shdr m') = 0"
    and oo: "list_all2 only_offset (concat ?slices) (concat (fst (layout_slices (2 ^ K) 0 ?slices)))"
    using L unfolding unsigned_0 by blast+
  let ?ms' = "concat (fst (layout_slices (2 ^ K) 0 ?slices))"
  let ?osec' = "osec\<lparr>members := ?ms',
                    osec_shdr := (osec_shdr osec)\<lparr>sh_size := snd (layout_slices (2 ^ K) 0 ?slices),
                                                 sh_addralign := 2 ^ K\<rparr>\<rparr>"
  have res: "set_isec_offsets_unit unit osec = Some ?osec'"
    using set_isec_offsets_unit_layout [OF unit False] K(2) by (simp add: Let_def)
  have oo': "list_all2 only_offset ?ms ?ms'"
    using oo by (simp add: concat_chop)
  then have "length ?ms = length ?ms'"
    by (rule list_all2_lengthD)
  with False have ne': "?ms' \<noteq> []"
    by (metis length_0_conv)
  have dis: "\<forall>i j. i < length ?ms' \<and> j < length ?ms' \<and> i \<noteq> j \<longrightarrow>
         byte_range (?ms' ! i) \<inter> byte_range (?ms' ! j) = {}"
    using chained_disjoint [OF ch] by blast
  have lst: "unat (offset (last ?ms')) + unat (sh_size (shdr (last ?ms')))
           \<le> unat (snd (layout_slices (2 ^ K) 0 ?slices))"
    using ch ne' by (rule chained_last)
  show ?thesis
    using res oo' dis ali lst by (auto simp add: set_isec_offsets_def)
qed

theorem set_isec_offsets_layout_witness:
  "list_all (\<lambda>m. \<exists>n<63. sh_addralign (shdr m) = 2 ^ n) (members example_osec) \<and>
   section_end_nat 2 (members example_osec) = 50 \<and>
   section_end_nat 10000 (members example_osec) = 36 \<and>
   map offset (members (the (set_isec_offsets_unit 2 example_osec))) = [0, 8, 16, 32, 48] \<and>
   sh_size (osec_shdr (the (set_isec_offsets_unit 2 example_osec))) = 50 \<and>
   map offset (members (the (set_isec_offsets example_osec))) = [0, 8, 16, 32, 34] \<and>
   sh_size (osec_shdr (the (set_isec_offsets example_osec))) = 36 \<and>
   (\<exists>osec'. set_isec_offsets_unit 2 example_osec = Some osec' \<and>
      list_all2 only_offset (members example_osec) (members osec') \<and>
      (\<forall>i j. i < length (members osec') \<and> j < length (members osec') \<and> i \<noteq> j \<longrightarrow>
         byte_range (members osec' ! i) \<inter> byte_range (members osec' ! j) = {}) \<and>
      (\<forall>m' \<in> set (members osec'). offset m' mod sh_addralign (shdr m') = 0)) \<and>
   (\<exists>osec'. set_isec_offsets example_osec = Some osec' \<and>
      list_all2 only_offset (members example_osec) (members osec') \<and>
      (\<forall>i j. i < length (members osec') \<and> j < length (members osec') \<and> i \<noteq> j \<longrightarrow>
         byte_range (members osec' ! i) \<inter> byte_range (members osec' ! j) = {}) \<and>
      (\<forall>m' \<in> set (members osec'). offset m' mod sh_addralign (shdr m') = 0))"
proof -
  have p: "\<exists>n<63. (1::u64) = 2 ^ n" "\<exists>n<63. (8::u64) = 2 ^ n" "\<exists>n<63. (4::u64) = 2 ^ n"
    "\<exists>n<63. (16::u64) = 2 ^ n" "\<exists>n<63. (2::u64) = 2 ^ n"
    by (rule exI [of _ 0], simp, rule exI [of _ 3], simp, rule exI [of _ 2], simp,
        rule exI [of _ 4], simp, rule exI [of _ 1], simp)
  have al: "\<forall>m \<in> set (members example_osec). \<exists>n<63. sh_addralign (shdr m) = 2 ^ n"
    using p by (simp add: example_osec_def mk_member_def)
  have e2: "section_end_nat 2 (members example_osec) = 50"
    by code_simp
  have e1: "section_end_nat 10000 (members example_osec) = 36"
    by code_simp
  have b2: "section_end_nat 2 (members example_osec) < 2 ^ 63"
    unfolding e2 by simp
  have b1: "section_end_nat 10000 (members example_osec) < 2 ^ 63"
    unfolding e1 by simp
  have u2: "(0::nat) < 2" and u1: "(0::nat) < 10000"
    by simp_all
  have o2: "map offset (members (the (set_isec_offsets_unit 2 example_osec))) = [0, 8, 16, 32, 48]"
    "sh_size (osec_shdr (the (set_isec_offsets_unit 2 example_osec))) = 50"
    by code_simp+
  have o1: "map offset (members (the (set_isec_offsets example_osec))) = [0, 8, 16, 32, 34]"
    "sh_size (osec_shdr (the (set_isec_offsets example_osec))) = 36"
    by code_simp+
  from set_isec_offsets_layout [OF u2 al b2]
  have t2: "\<exists>osec'. set_isec_offsets_unit 2 example_osec = Some osec' \<and>
      list_all2 only_offset (members example_osec) (members osec') \<and>
      (\<forall>i j. i < length (members osec') \<and> j < length (members osec') \<and> i \<noteq> j \<longrightarrow>
         byte_range (members osec' ! i) \<inter> byte_range (members osec' ! j) = {}) \<and>
      (\<forall>m' \<in> set (members osec'). offset m' mod sh_addralign (shdr m') = 0)"
    by blast
  from set_isec_offsets_layout [OF u1 al b1]
  have t1: "\<exists>osec'. set_isec_offsets example_osec = Some osec' \<and>
      list_all2 only_offset (members example_osec) (members osec') \<and>
      (\<forall>i j. i < length (members osec') \<and> j < length (members osec') \<and> i \<noteq> j \<longrightarrow>
         byte_range (members osec' ! i) \<inter> byte_range (members osec' ! j) = {}) \<and>
      (\<forall>m' \<in> set (members osec'). offset m' mod sh_addralign (shdr m') = 0)"
    by blast
  from al have al': "list_all (\<lambda>m. \<exists>n<63. sh_addralign (shdr m) = 2 ^ n) (members example_osec)"
    by (simp only: list_all_iff)
  from al' e2 e1 o2 o1 t2 t1 show ?thesis
    by blast
qed

text \<open>
  The claim as stated fails when the offsets wrap around.  All three members
  of the section below have alignment 1, a power of two; the first two have
  size \<open>2 ^ 63\<close>.  \<open>set_isec_offsets\<close> places the third member at offset 0,
  where the first one lies, and sets the section's size to 1.
\<close>

theorem set_isec_offsets_layout_counterexample:
  "map (\<lambda>m. sh_addralign (shdr m)) (members example_huge_osec) = [2 ^ 0, 2 ^ 0, 2 ^ 0] \<and>
   set_isec_offsets example_huge_osec =
     Some (example_huge_osec
       \<lparr>members := [mk_member 0x8000000000000000 1,
                    (mk_member 0x8000000000000000 1)\<lparr>offset := 0x8000000000000000\<rparr>,
                    mk_member 1 1],
        osec_shdr := (osec_shdr example_huge_osec)\<lparr>sh_size := 1, sh_addralign := 1\<rparr>\<rparr>) \<and>
   0 \<in> byte_range (mk_member 0x8000000000000000 1) \<inter> byte_range (mk_member 1 1)"
proof -
  have a: "map (\<lambda>m. sh_addralign (shdr m)) (members example_huge_osec) = [2 ^ 0, 2 ^ 0, 2 ^ 0]"
    by (simp add: example_huge_osec_def mk_member_def)
  have b: "set_isec_offsets example_huge_osec =
     Some (example_huge_osec
       \<lparr>members := [mk_member 0x8000000000000000 1,
                    (mk_member 0x8000000000000000 1)\<lparr>offset := 0x8000000000000000\<rparr>,
                    mk_member 1 1],
        osec_shdr := (osec_shdr example_huge_osec)\<lparr>sh_size := 1, sh_addralign := 1\<rparr>\<rparr>)"
    by code_simp
  have c: "0 \<in> byte_range (mk_member 0x8000000000000000 1) \<inter> byte_range (mk_member 1 1)"
    by (simp add: byte_range_def mk_member_def)
  from a b c show ?thesis
    by blast
qed

end
